theory Spec2Isabelle
  imports Main "HOL-Library.Multiset"
begin

section \<open>Data model of the search facade\<close>

text \<open>
  Element ids are generated ids: strings that the repository compares with
  \<open>firstBiggerThanSecond\<close> (longer is bigger, equal lengths compare bytewise), a linear
  order in which a bigger id is a newer element. The model takes the position of an id in
  that order, a natural number. List ids are only ever compared for equality and stay
  strings. Byte arrays (\<open>Uint8Array\<close>) are lists of numbers.
\<close>

type_synonym Id = nat
type_synonym ListId = string
type_synonym IdTuple = "ListId \<times> Id"
type_synonym bytes = "nat list"

datatype TypeRef = TypeRef (app: string) (typeName: string)

definition MailTypeRef :: TypeRef where
  "MailTypeRef = TypeRef ''tutanota'' ''Mail''"

text \<open>
  Modelled from the spec: \<open>isSameTypeRef\<close> (EntityFunctions, not part of the sources at
  hand) tells whether two type references select the same entity kind: same application,
  same type name.
\<close>

definition isSameTypeRef :: "TypeRef \<Rightarrow> TypeRef \<Rightarrow> bool" where
  "isSameTypeRef a b = (app a = app b \<and> typeName a = typeName b)"

text \<open>
  Modelled from the spec: \<open>firstBiggerThanSecond\<close> and \<open>compareNewestFirst\<close>
  (EntityFunctions, not part of the sources at hand). Ids are comparable and a larger id
  is newer; \<open>compareNewestFirst\<close> is the comparator that puts the newer id first and
  answers \<open>-1\<close>, \<open>0\<close> or \<open>1\<close>.
\<close>

definition firstBiggerThanSecond :: "Id \<Rightarrow> Id \<Rightarrow> bool" where
  "firstBiggerThanSecond firstId secondId = (secondId < firstId)"

definition compareNewestFirst :: "Id \<Rightarrow> Id \<Rightarrow> int" where
  "compareNewestFirst id1 id2 =
     (if id1 = id2 then 0 else if firstBiggerThanSecond id1 id2 then - 1 else 1)"

text \<open>
  \<open>Array.prototype.sort\<close> with a comparator, as a stable insertion sort: an element
  goes in front of the first element it does not compare greater than.
\<close>

fun insort_cmp :: "('a \<Rightarrow> 'a \<Rightarrow> int) \<Rightarrow> 'a \<Rightarrow> 'a list \<Rightarrow> 'a list" where
  "insort_cmp cmp x [] = [x]"
| "insort_cmp cmp x (y # ys) =
     (if cmp x y \<le> 0 then x # y # ys else y # insort_cmp cmp x ys)"

definition sort_cmp :: "('a \<Rightarrow> 'a \<Rightarrow> int) \<Rightarrow> 'a list \<Rightarrow> 'a list" where
  "sort_cmp cmp xs = foldr (insort_cmp cmp) xs []"

text \<open>
  A \<open>SearchRestriction\<close>. The optional fields are \<open>None\<close> when unset. The code tests
  them by truthiness, so a number that is \<open>0\<close> and a string that is empty count as
  unset there; an array, even an empty one, counts as set.
\<close>

record SearchRestriction =
  r_type :: TypeRef
  r_attributeIds :: "nat list option"
  r_listId :: "ListId option"
  r_start :: "int option"
  r_end :: "int option"

definition truthy :: "'a::zero option \<Rightarrow> bool" where
  "truthy x = (case x of None \<Rightarrow> False | Some n \<Rightarrow> n \<noteq> 0)"

definition truthy_string :: "string option \<Rightarrow> bool" where
  "truthy_string x = (case x of None \<Rightarrow> False | Some s \<Rightarrow> s \<noteq> [])"

text \<open>A chunk descriptor of a metadata row, and a decrypted posting.\<close>

record SearchIndexMetadataEntry =
  m_key :: nat
  m_size :: nat
  m_app :: nat
  m_type :: nat

record SearchIndexEntry =
  e_id :: Id
  e_encId :: bytes
  e_attribute :: nat
  e_positions :: "nat list"

record EncryptedSearchIndexEntryWithHash =
  encEntry :: bytes
  idHash :: nat

text \<open>
  \<open>KeyToEncryptedIndexEntries\<close> and \<open>KeyToIndexEntries\<close>: the entries read for one
  search token, under the token's index key.
\<close>

record 'e KeyToEntries =
  indexKey :: string
  indexEntries :: "'e list"

text \<open>An element data row; its first component is the list id.\<close>

type_synonym ElementDataDbRow = "ListId \<times> bytes \<times> string"

text \<open>
  Entities as the suggestion filter reads them: a tree of attribute values, read through
  the type model.
\<close>

datatype Val =
    VNull
  | VString string
  | VNumber int
  | VObject "(string \<times> Val) list"
  | VArray "Val list"

datatype ValueType = String | Number | Bytes | Date | Boolean | GeneratedId | CustomId
datatype AssociationType =
  ElementAssociation | ListAssociation | ListElementAssociation | Aggregation
datatype Cardinality = ZeroOrOne | Any | One

record ModelValue =
  mv_id :: nat
  mv_type :: ValueType

record ModelAssociation =
  ma_id :: nat
  ma_type :: AssociationType
  ma_cardinality :: Cardinality
  ma_refType :: string

record TypeModel =
  tm_app :: string
  tm_values :: "(string \<times> ModelValue) list"
  tm_associations :: "(string \<times> ModelAssociation) list"

datatype error =
    TypeError
  | NotFoundError
  | NotAuthorizedError
  | OtherError string

record SuggestionFacade =
  sf_type :: TypeRef
  getSuggestions :: "string \<Rightarrow> string list"

text \<open>
  What the facade reads from its collaborators: the tokenizer, the indexer's horizon, the
  clock, the constants, the three object stores of the database with the functions that
  encode keys and decrypt rows, the entity loader and the type model registry. None of
  them is written by a search. A posting row of \<open>SearchIndexOS\<close> is held as the sequence
  of framed blocks that \<open>iterateBinaryBlocks\<close> yields from it.
\<close>

record Env =
  tokenize :: "string \<Rightarrow> string list"
  suggestionFacades :: "SuggestionFacade list"
  indexerTimestamp :: int
  dateNow :: int
  FULL_INDEXED_TIMESTAMP :: int
  NOTHING_INDEXED_TIMESTAMP :: int
  timestampToGeneratedId :: "int \<Rightarrow> Id"
  getStartOfDay :: "int \<Rightarrow> int"
  typeRefToTypeInfo :: "TypeRef \<Rightarrow> nat \<times> nat"
  encryptIndexKeyBase64 :: "string \<Rightarrow> string"
  metaDataOS :: "string \<Rightarrow> bytes option"
  decryptMetaData :: "bytes \<Rightarrow> SearchIndexMetadataEntry list"
  searchIndexOS :: "nat \<Rightarrow> bytes list option"
  getIdFromEncSearchIndexEntry :: "bytes \<Rightarrow> bytes"
  arrayHash :: "bytes \<Rightarrow> nat"
  decryptSearchIndexEntry :: "bytes \<Rightarrow> SearchIndexEntry"
  uint8ArrayToBase64 :: "bytes \<Rightarrow> string"
  elementDataOS :: "string \<Rightarrow> ElementDataDbRow option"
  load :: "TypeRef \<Rightarrow> IdTuple \<Rightarrow> error + Val"
  resolveTypeReference :: "TypeRef \<Rightarrow> TypeModel"

text \<open>The search result, which is also the cursor of the pagination.\<close>

record SearchResult =
  query :: string
  restriction :: SearchRestriction
  results :: "IdTuple list"
  currentIndexTimestamp :: int
  moreResultsEntries :: "SearchIndexEntry list"
  lastReadSearchIndexRow :: "(string \<times> nat option) list"
  matchWordOrder :: bool

section \<open>The constraint filter\<close>

definition getSearchEndTimestamp :: "Env \<Rightarrow> SearchRestriction \<Rightarrow> int" where
  "getSearchEndTimestamp env restr =
     (if truthy (r_end restr) then the (r_end restr)
      else if isSameTypeRef MailTypeRef (r_type restr) then
        (if indexerTimestamp env = NOTHING_INDEXED_TIMESTAMP env then dateNow env
         else indexerTimestamp env)
      else FULL_INDEXED_TIMESTAMP env)"

text \<open>
  Modelled from the spec: \<open>contains\<close> (ArrayUtils, not part of the sources at hand)
  tells whether an array holds an element; the filter uses it for the whitelist of
  attribute ids.
\<close>

definition contains :: "'a list \<Rightarrow> 'a \<Rightarrow> bool" where
  "contains theArray elementToCheck = (elementToCheck \<in> set theArray)"

definition isValidAttributeAndTime ::
  "SearchRestriction \<Rightarrow> SearchIndexEntry \<Rightarrow> Id \<Rightarrow> Id option \<Rightarrow> bool" where
  "isValidAttributeAndTime restr entry minIncludedId maxExcludedId =
     (if r_attributeIds restr \<noteq> None
         \<and> \<not> contains (the (r_attributeIds restr)) (e_attribute entry)
      then False
      else if maxExcludedId \<noteq> None
         \<and> \<not> firstBiggerThanSecond (the maxExcludedId) (e_id entry)
      then False
      else \<not> firstBiggerThanSecond minIncludedId (e_id entry))"

definition minIncludedId :: "Env \<Rightarrow> SearchRestriction \<Rightarrow> Id" where
  "minIncludedId env restr =
     timestampToGeneratedId env (getSearchEndTimestamp env restr)"

definition maxExcludedId :: "Env \<Rightarrow> SearchRestriction \<Rightarrow> Id option" where
  "maxExcludedId env restr =
     (if truthy (r_start restr)
      then Some (timestampToGeneratedId env (the (r_start restr) + 1))
      else None)"

section \<open>Reading the postings of a search token\<close>

text \<open>
  The postings of one chunk descriptor. A row that is absent gives no entries; a row that
  is there gives its blocks. The code puts them into an array of \<open>m_size\<close> slots,
  which they fill on a store that keeps \<open>m_size\<close> equal to the number of blocks of
  the row, as the indexer writes it. The model is of such stores: on a row with fewer
  blocks the unfilled slots make the page throw.
\<close>

definition findEntriesForMetadata :: "Env \<Rightarrow> SearchIndexMetadataEntry \<Rightarrow> bytes list" where
  "findEntriesForMetadata env entry =
     (case searchIndexOS env (m_key entry) of None \<Rightarrow> [] | Some blocks \<Rightarrow> blocks)"

text \<open>
  The filter that selects the chunk descriptors of a page, with its two counters
  \<open>entitiesToRead\<close> and \<open>lastReadRowId\<close> passed along. It answers the selected
  descriptors and the final \<open>lastReadRowId\<close>.
\<close>

fun rowsToRead ::
  "nat option \<Rightarrow> nat option \<Rightarrow> SearchIndexMetadataEntry list \<Rightarrow> nat \<Rightarrow> nat
     \<Rightarrow> SearchIndexMetadataEntry list \<times> nat" where
  "rowsToRead maxResults fromRow [] entitiesToRead lastReadRowId = ([], lastReadRowId)"
| "rowsToRead maxResults fromRow (r # rs) entitiesToRead lastReadRowId =
     (if truthy maxResults then
        (if (\<not> truthy fromRow \<or> m_key r < the fromRow) \<and> entitiesToRead < 1000 then
           (case rowsToRead maxResults fromRow rs (entitiesToRead + m_size r) (m_key r) of
              (sel, l) \<Rightarrow> (r # sel, l))
         else rowsToRead maxResults fromRow rs entitiesToRead lastReadRowId)
      else
        (case rowsToRead maxResults fromRow rs entitiesToRead lastReadRowId of
           (sel, l) \<Rightarrow> (r # sel, l)))"

text \<open>The chunk descriptors of a token for the restriction's type, newest first.\<close>

definition filteredRows :: "Env \<Rightarrow> SearchRestriction \<Rightarrow> string \<Rightarrow> SearchIndexMetadataEntry list" where
  "filteredRows env restr searchToken =
     (let safeRows = (case metaDataOS env (encryptIndexKeyBase64 env searchToken) of
                        None \<Rightarrow> [] | Some metaData \<Rightarrow> decryptMetaData env metaData);
          typeInfo = typeRefToTypeInfo env (r_type restr)
      in rev (filter (\<lambda>r. m_app r = fst typeInfo \<and> m_type r = snd typeInfo) safeRows))"

text \<open>
  Reading one token: the token's row of the cursor comes back with its second component
  overwritten by \<open>lastReadRowId\<close>, beside the entries read.
\<close>

definition findEntriesForSearchToken ::
  "Env \<Rightarrow> SearchRestriction \<Rightarrow> nat option \<Rightarrow> string \<times> nat option
     \<Rightarrow> (string \<times> nat option) \<times> EncryptedSearchIndexEntryWithHash KeyToEntries" where
  "findEntriesForSearchToken env restr maxResults searchTokenInfo =
     (case searchTokenInfo of (searchToken, fromRow) \<Rightarrow>
        (case rowsToRead maxResults fromRow (filteredRows env restr searchToken) 0 0 of
           (rows, lastReadRowId) \<Rightarrow>
             ((searchToken, Some lastReadRowId),
              \<lparr> indexKey = encryptIndexKeyBase64 env searchToken,
                indexEntries =
                  map (\<lambda>entry. \<lparr> encEntry = entry,
                                 idHash = arrayHash env (getIdFromEncSearchIndexEntry env entry) \<rparr>)
                      (concat (map (findEntriesForMetadata env) rows)) \<rparr>)))"

definition findIndexEntries ::
  "Env \<Rightarrow> SearchResult \<Rightarrow> nat option
     \<Rightarrow> ((string \<times> nat option) \<times> EncryptedSearchIndexEntryWithHash KeyToEntries) list" where
  "findIndexEntries env searchResult maxResults =
     map (findEntriesForSearchToken env (restriction searchResult) maxResults)
         (lastReadSearchIndexRow searchResult)"

text \<open>
  The gets of a page on the two stores that hold the postings: the metadata row under an
  index key, and a chunk of postings under its key.
\<close>

datatype access = MetaDataGet string | SearchIndexGet nat

text \<open>
  The gets of \<open>_findEntriesForSearchToken\<close>: the metadata row under the token's index
  key, then, through \<open>_findEntriesForMetadata\<close>, the chunk of every descriptor that the
  filter selected. \<open>_findIndexEntries\<close> does this for every row of the cursor, in the
  order of the rows.
\<close>

definition tokenReads ::
  "Env \<Rightarrow> SearchRestriction \<Rightarrow> nat option \<Rightarrow> string \<times> nat option \<Rightarrow> access list" where
  "tokenReads env restr maxResults searchTokenInfo =
     (case searchTokenInfo of (searchToken, fromRow) \<Rightarrow>
        MetaDataGet (encryptIndexKeyBase64 env searchToken)
        # map (\<lambda>entry. SearchIndexGet (m_key entry))
            (fst (rowsToRead maxResults fromRow (filteredRows env restr searchToken) 0 0)))"


section \<open>Intersecting, decrypting and filtering\<close>

definition matchingEncIds ::
  "EncryptedSearchIndexEntryWithHash KeyToEntries list \<Rightarrow> nat set option" where
  "matchingEncIds rs =
     foldl (\<lambda>matching keyToEncryptedIndexEntry.
              case matching of
                None \<Rightarrow> Some (set (map idHash (indexEntries keyToEncryptedIndexEntry)))
              | Some m \<Rightarrow>
                  Some (set (filter (\<lambda>h. h \<in> m)
                               (map idHash (indexEntries keyToEncryptedIndexEntry)))))
           None rs"

definition filterByEncryptedId ::
  "EncryptedSearchIndexEntryWithHash KeyToEntries list
     \<Rightarrow> EncryptedSearchIndexEntryWithHash KeyToEntries list" where
  "filterByEncryptedId rs =
     map (\<lambda>r. \<lparr> indexKey = indexKey r,
                indexEntries =
                  filter (\<lambda>entry. idHash entry \<in> the (matchingEncIds rs)) (indexEntries r) \<rparr>)
         rs"

definition decryptSearchResult ::
  "Env \<Rightarrow> EncryptedSearchIndexEntryWithHash KeyToEntries list
     \<Rightarrow> SearchIndexEntry KeyToEntries list" where
  "decryptSearchResult env rs =
     map (\<lambda>searchResult.
            \<lparr> indexKey = indexKey searchResult,
              indexEntries =
                map (\<lambda>entry. decryptSearchIndexEntry env (encEntry entry))
                    (indexEntries searchResult) \<rparr>)
         rs"

definition matchingIds :: "SearchIndexEntry KeyToEntries list \<Rightarrow> Id set option" where
  "matchingIds rs =
     foldl (\<lambda>matching keyToIndexEntry.
              case matching of
                None \<Rightarrow> Some (set (map e_id (indexEntries keyToIndexEntry)))
              | Some m \<Rightarrow>
                  Some (set (filter (\<lambda>i. i \<in> m) (map e_id (indexEntries keyToIndexEntry)))))
           None rs"

definition filterByTypeAndAttributeAndTime ::
  "Env \<Rightarrow> SearchIndexEntry KeyToEntries list \<Rightarrow> SearchRestriction
     \<Rightarrow> SearchIndexEntry KeyToEntries list" where
  "filterByTypeAndAttributeAndTime env rs restr =
     (let valid = map (\<lambda>result.
                         result\<lparr> indexEntries :=
                           filter (\<lambda>entry. isValidAttributeAndTime restr entry
                                             (minIncludedId env restr) (maxExcludedId env restr))
                                  (indexEntries result) \<rparr>)
                      rs
      in map (\<lambda>r. \<lparr> indexKey = indexKey r,
                     indexEntries =
                       filter (\<lambda>entry. e_id entry \<in> the (matchingIds valid)) (indexEntries r) \<rparr>)
             valid)"

section \<open>The phrase reducer\<close>

text \<open>
  The loop over the words after the first one: \<open>rs\<close> are the entries of the words
  \<open>i, i + 1, \<dots>\<close>. \<open>find\<close> answers the position found, which the filter reads as a
  truth value.
\<close>

fun reducePositions ::
  "SearchIndexEntry \<Rightarrow> SearchIndexEntry KeyToEntries list \<Rightarrow> nat \<Rightarrow> nat list \<Rightarrow> nat list" where
  "reducePositions firstWordEntry [] i filteredPositions = filteredPositions"
| "reducePositions firstWordEntry (r # rs) i filteredPositions =
     reducePositions firstWordEntry rs (i + 1)
       (case find (\<lambda>e. e_id e = e_id firstWordEntry
                        \<and> e_attribute e = e_attribute firstWordEntry) (indexEntries r) of
          Some entry \<Rightarrow>
            filter (\<lambda>firstWordPosition.
                      case find (\<lambda>position. position = firstWordPosition + i)
                                (e_positions entry) of
                        None \<Rightarrow> False
                      | Some position \<Rightarrow> position \<noteq> 0)
                   filteredPositions
        | None \<Rightarrow> [])"

text \<open>Reading \<open>results[0]\<close> of an empty array throws a \<open>TypeError\<close>.\<close>

definition reduceWords ::
  "SearchIndexEntry KeyToEntries list \<Rightarrow> bool \<Rightarrow> error + SearchIndexEntry list" where
  "reduceWords rs matchWordOrder' =
     (case rs of
        [] \<Rightarrow> Inl TypeError
      | r0 # rest \<Rightarrow>
          Inr (if matchWordOrder' then
                 filter (\<lambda>firstWordEntry.
                           length (reducePositions firstWordEntry rest 1
                                     (e_positions firstWordEntry)) > 0)
                        (indexEntries r0)
               else indexEntries r0))"

section \<open>The result assembler\<close>

fun uniqueElementIds :: "Id set \<Rightarrow> IdTuple list \<Rightarrow> SearchIndexEntry list \<Rightarrow> SearchIndexEntry list" where
  "uniqueElementIds uniqueIds previous [] = []"
| "uniqueElementIds uniqueIds previous (entry # es) =
     (if e_id entry \<notin> uniqueIds \<and> find (\<lambda>r. snd r = e_id entry) previous = None
      then entry # uniqueElementIds (insert (e_id entry) uniqueIds) previous es
      else uniqueElementIds uniqueIds previous es)"

definition reduceToUniqueElementIds ::
  "SearchIndexEntry list \<Rightarrow> SearchResult \<Rightarrow> SearchIndexEntry list" where
  "reduceToUniqueElementIds es previousResult = uniqueElementIds {} (results previousResult) es"

text \<open>
  The completion of one element data lookup: the pair is pushed when the row is there and
  the list id restriction, if any, admits it.
\<close>

definition pushResult :: "Env \<Rightarrow> SearchRestriction \<Rightarrow> SearchIndexEntry \<Rightarrow> IdTuple list \<Rightarrow> IdTuple list" where
  "pushResult env restr entry rs =
     (case elementDataOS env (uint8ArrayToBase64 env (e_encId entry)) of
        None \<Rightarrow> rs
      | Some elementData \<Rightarrow>
          if \<not> truthy_string (r_listId restr) \<or> r_listId restr = Some (fst elementData)
          then rs @ [(fst elementData, e_id entry)]
          else rs)"

text \<open>
  \<open>Promise.map\<close> with \<open>concurrency: 5\<close> over the entries, as the promise library
  runs it. The mapper of an entry either finds the result full, stops and is done at
  once, or issues its lookup, which is then in flight. Lookups of one transaction
  complete in the order they were issued; a completion pushes its pair and frees its
  slot.

  \<open>mapEntries\<close> is the part after the first round: the queue holds the entries that
  found five lookups in flight, and whenever a slot is free the library takes the entry
  at the end of the queue. A mapper that stops resolves the page's promise through
  \<open>Promise.race\<close>, but the lookups in flight complete and push all the same; the
  function answers the results once no lookup is in flight.
\<close>

function mapEntries ::
  "Env \<Rightarrow> SearchRestriction \<Rightarrow> nat option \<Rightarrow> SearchIndexEntry list \<Rightarrow> SearchIndexEntry list
     \<Rightarrow> IdTuple list \<Rightarrow> IdTuple list" where
  "mapEntries env restr maxResults queue inFlight rs =
     (if queue \<noteq> [] \<and> length inFlight < 5 then
        (if truthy maxResults \<and> length rs \<ge> the maxResults
         then mapEntries env restr maxResults (butlast queue) inFlight rs
         else mapEntries env restr maxResults (butlast queue) (inFlight @ [last queue]) rs)
      else
        (case inFlight of
           [] \<Rightarrow> rs
         | entry # rest \<Rightarrow>
             mapEntries env restr maxResults queue rest (pushResult env restr entry rs)))"
  by pat_completeness auto
termination
  by (relation "measure (\<lambda>(env, restr, maxResults, queue, inFlight, rs).
                   2 * length queue + length inFlight)") (auto simp: neq_Nil_conv)

declare mapEntries.simps [simp del]

text \<open>
  The first round goes through the entries in array order, before any lookup completes.
  When the result is full already, every mapper stops. Otherwise the first five entries
  are started and the others are queued.
\<close>

definition promiseMap ::
  "Env \<Rightarrow> SearchRestriction \<Rightarrow> nat option \<Rightarrow> SearchIndexEntry list \<Rightarrow> IdTuple list
     \<Rightarrow> IdTuple list" where
  "promiseMap env restr maxResults entries rs =
     (if truthy maxResults \<and> length rs \<ge> the maxResults then rs
      else mapEntries env restr maxResults (drop 5 entries) (take 5 entries) rs)"

text \<open>
  The documentation of \<open>Promise.map\<close> leaves open in which order the waiting entries are
  started. The steps that any schedule can take: a waiting entry is started while fewer
  than five lookups are in flight (and is done at once when it finds the result full),
  or a lookup in flight completes and pushes its pair.
\<close>

inductive mapStep ::
  "Env \<Rightarrow> SearchRestriction \<Rightarrow> nat option
     \<Rightarrow> SearchIndexEntry list \<times> SearchIndexEntry list \<times> IdTuple list
     \<Rightarrow> SearchIndexEntry list \<times> SearchIndexEntry list \<times> IdTuple list \<Rightarrow> bool"
  for env restr maxResults where
    stop: "length inFlight < 5
             \<Longrightarrow> truthy maxResults \<and> the maxResults \<le> length rs
             \<Longrightarrow> mapStep env restr maxResults (before @ e # after, inFlight, rs)
                   (before @ after, inFlight, rs)"
  | start: "length inFlight < 5
             \<Longrightarrow> \<not> (truthy maxResults \<and> the maxResults \<le> length rs)
             \<Longrightarrow> mapStep env restr maxResults (before @ e # after, inFlight, rs)
                   (before @ after, inFlight @ [e], rs)"
  | complete: "mapStep env restr maxResults (waiting, before @ e # after, rs)
                   (waiting, before @ after, pushResult env restr e rs)"

text \<open>What the completion of an entry's lookup pushes: one pair or none.\<close>

definition pushed :: "Env \<Rightarrow> SearchRestriction \<Rightarrow> SearchIndexEntry \<Rightarrow> IdTuple list" where
  "pushed env restr entry = pushResult env restr entry []"

definition filterByListIdAndGroupSearchResults ::
  "Env \<Rightarrow> SearchIndexEntry list \<Rightarrow> SearchResult \<Rightarrow> nat option \<Rightarrow> SearchResult" where
  "filterByListIdAndGroupSearchResults env es searchResult maxResults =
     (let sorted = sort_cmp (\<lambda>l r. compareNewestFirst (e_id l) (e_id r)) es;
          page = take (if truthy maxResults then the maxResults else length sorted + 1) sorted
      in searchResult\<lparr> results :=
           promiseMap env (restriction searchResult) maxResults page (results searchResult) \<rparr>)"

section \<open>A page of the search\<close>

text \<open>
  One page: the cursor rows are overwritten while the postings are read, then the entries
  go through the stages in turn.
\<close>

definition startOrContinueSearch :: "Env \<Rightarrow> SearchResult \<Rightarrow> nat option \<Rightarrow> error + SearchResult" where
  "startOrContinueSearch env searchResult maxResults =
     (let found = findIndexEntries env searchResult maxResults;
          searchResult' = searchResult\<lparr> lastReadSearchIndexRow := map fst found \<rparr>;
          keyToIndexEntries =
            filterByTypeAndAttributeAndTime env
              (decryptSearchResult env (filterByEncryptedId (map snd found)))
              (restriction searchResult')
      in case reduceWords keyToIndexEntries (matchWordOrder searchResult') of
           Inl e \<Rightarrow> Inl e
         | Inr searchIndexEntries \<Rightarrow>
             Inr (filterByListIdAndGroupSearchResults env
                    (reduceToUniqueElementIds searchIndexEntries searchResult')
                    searchResult' maxResults))"

text \<open>
  \<open>_tryExtendIndex\<close>: for a mail search that ends before the indexer's horizon, the
  indexer is asked to index back to the start of the day of the end, and the search waits
  for it; the function answers the time asked for, if any. A cancelled extension is
  logged and the search goes on. The extension writes nothing of the search result, and
  the stores of \<open>Env\<close> are the stores as the page reads them after it.
\<close>

definition tryExtendIndex :: "Env \<Rightarrow> SearchRestriction \<Rightarrow> int option" where
  "tryExtendIndex env restr =
     (if isSameTypeRef MailTypeRef (r_type restr)
         \<and> indexerTimestamp env > FULL_INDEXED_TIMESTAMP env \<and> truthy (r_end restr)
         \<and> indexerTimestamp env > the (r_end restr)
      then Some (getStartOfDay env (the (r_end restr)))
      else None)"

text \<open>
  \<open>_searchForTokens\<close> waits for the extension and runs the page. The suggestions handed
  in are not used.
\<close>

definition searchForTokens ::
  "Env \<Rightarrow> SearchResult \<Rightarrow> string list \<Rightarrow> nat option \<Rightarrow> error + SearchResult" where
  "searchForTokens env searchResult suggestions maxResults =
     startOrContinueSearch env searchResult maxResults"

definition getMoreSearchResults :: "Env \<Rightarrow> SearchResult \<Rightarrow> nat \<Rightarrow> error + SearchResult" where
  "getMoreSearchResults env searchResult moreResultCount =
     startOrContinueSearch env searchResult (Some moreResultCount)"




section \<open>The suggestion filter\<close>

text \<open>
  Reading an attribute of an entity: \<open>entity[attributeName]\<close>, which is undefined where
  the entity has no such attribute; and the truth value the code reads a value as.
\<close>

definition getAttr :: "Val \<Rightarrow> string \<Rightarrow> Val" where
  "getAttr entity attributeName =
     (case entity of
        VObject fs \<Rightarrow> (case map_of fs attributeName of Some v \<Rightarrow> v | None \<Rightarrow> VNull)
      | _ \<Rightarrow> VNull)"

definition truthy_val :: "Val \<Rightarrow> bool" where
  "truthy_val v =
     (case v of
        VNull \<Rightarrow> False
      | VString s \<Rightarrow> s \<noteq> []
      | VNumber n \<Rightarrow> n \<noteq> 0
      | VObject fs \<Rightarrow> True
      | VArray xs \<Rightarrow> True)"

definition startsWith :: "string \<Rightarrow> string \<Rightarrow> bool" where
  "startsWith s p = (take (length p) s = p)"

definition endsWith :: "string \<Rightarrow> string \<Rightarrow> bool" where
  "endsWith s p = (length p \<le> length s \<and> drop (length s - length p) s = p)"

text \<open>
  The attribute names to look at: all values and associations of the model, or the name
  that goes with each whitelisted attribute id (none when the model has no such id).
\<close>

definition attributeNames :: "TypeModel \<Rightarrow> nat list option \<Rightarrow> string option list" where
  "attributeNames model attributeIds =
     (case attributeIds of
        None \<Rightarrow> map Some (map fst (tm_values model) @ map fst (tm_associations model))
      | Some ids \<Rightarrow>
          map (\<lambda>i.
                 case find (\<lambda>valueName.
                              map_option mv_id (map_of (tm_values model) valueName) = Some i)
                           (map fst (tm_values model)) of
                   Some valueName \<Rightarrow>
                     if valueName \<noteq> [] then Some valueName
                     else find (\<lambda>associationName.
                                  map_option ma_id (map_of (tm_associations model) associationName)
                                    = Some i)
                               (map fst (tm_associations model))
                 | None \<Rightarrow>
                     find (\<lambda>associationName.
                             map_option ma_id (map_of (tm_associations model) associationName)
                               = Some i)
                          (map fst (tm_associations model)))
              ids)"

text \<open>The aggregates of an aggregation: the array itself, or the single aggregate.\<close>

definition aggregatesOf :: "Cardinality \<Rightarrow> Val \<Rightarrow> Val list" where
  "aggregatesOf c v = (if c = Any then (case v of VArray xs \<Rightarrow> xs | _ \<Rightarrow> []) else [v])"

lemma size_map_of:
  "map_of fs n = Some v \<Longrightarrow> size v < Suc (size_list (size_prod (\<lambda>_. 0) size) fs)"
  by (induction fs) (auto split: if_splits)

lemma size_getAttr: "truthy_val (getAttr entity n) \<Longrightarrow> size (getAttr entity n) < size entity"
  by (cases entity) (auto simp: getAttr_def truthy_val_def size_map_of split: option.splits)

lemma size_in_list: "a \<in> set xs \<Longrightarrow> size (a::Val) \<le> size_list size xs"
  by (induction xs) auto

lemma size_aggregatesOf:
  assumes "a \<in> set (aggregatesOf c v)"
  shows "size a \<le> size v"
proof (cases v)
  case (VArray xs)
  then show ?thesis using assms size_in_list [of a xs]
    by (auto simp: aggregatesOf_def split: if_splits)
qed (use assms in \<open>auto simp: aggregatesOf_def split: if_splits\<close>)

text \<open>
  \<open>_containsSuggestionToken\<close>: some attribute holds a word that starts with the
  suggestion token, looking into the aggregates of aggregations in turn. The recursion
  follows the entity, which is a finite tree.
\<close>

function containsSuggestionToken ::
  "Env \<Rightarrow> Val \<Rightarrow> TypeModel \<Rightarrow> nat list option \<Rightarrow> string \<Rightarrow> bool" where
  "containsSuggestionToken env entity model attributeIds suggestionToken =
     list_ex (\<lambda>attributeName.
        case attributeName of
          None \<Rightarrow> False
        | Some name \<Rightarrow>
           (if map_option mv_type (map_of (tm_values model) name) = Some String
               \<and> truthy_val (getAttr entity name)
            then (case getAttr entity name of
                    VString s \<Rightarrow>
                      find (\<lambda>w. startsWith w suggestionToken) (tokenize env s) \<noteq> None
                  | _ \<Rightarrow> False)
            else if map_option ma_type (map_of (tm_associations model) name) = Some Aggregation
               \<and> truthy_val (getAttr entity name)
            then list_ex (\<lambda>aggregate.
                    containsSuggestionToken env aggregate
                      (resolveTypeReference env
                         (TypeRef (tm_app model)
                            (ma_refType (the (map_of (tm_associations model) name)))))
                      None suggestionToken)
                  (aggregatesOf (ma_cardinality (the (map_of (tm_associations model) name)))
                     (getAttr entity name))
            else False))
       (attributeNames model attributeIds)"
  by pat_completeness auto
termination
proof (relation "measure (\<lambda>(env, entity, model, attributeIds, suggestionToken). size entity)",
    goal_cases)
  case 1
  show ?case by simp
next
  case (2 env entity model attributeIds suggestionToken attributeName name aggregate)
  have "size aggregate \<le> size (getAttr entity name)"
    using 2 by (intro size_aggregatesOf)
  moreover have "size (getAttr entity name) < size entity"
    using 2 by (intro size_getAttr) simp
  ultimately show ?case by simp
qed

declare containsSuggestionToken.simps [simp del]

text \<open>
  The reduction of \<open>_loadAndReduce\<close> over the candidates, with the accumulator
  \<open>finalResults\<close>. A candidate whose load fails with \<open>NotFoundError\<close> or
  \<open>NotAuthorizedError\<close> leaves the accumulator as it is; any other error rejects the
  whole reduction.
\<close>

fun reduceCandidates ::
  "Env \<Rightarrow> SearchRestriction \<Rightarrow> TypeModel \<Rightarrow> string \<Rightarrow> nat \<Rightarrow> IdTuple list \<Rightarrow> IdTuple list
     \<Rightarrow> error + IdTuple list" where
  "reduceCandidates env restr model suggestionToken minSuggestionCount [] finalResults =
     Inr finalResults"
| "reduceCandidates env restr model suggestionToken minSuggestionCount (result # rest)
       finalResults =
     (if length finalResults \<ge> minSuggestionCount then
        reduceCandidates env restr model suggestionToken minSuggestionCount rest finalResults
      else
        (case load env (r_type restr) result of
           Inr entity \<Rightarrow>
             reduceCandidates env restr model suggestionToken minSuggestionCount rest
               (if containsSuggestionToken env entity model (r_attributeIds restr) suggestionToken
                then finalResults @ [result] else finalResults)
         | Inl NotFoundError \<Rightarrow>
             reduceCandidates env restr model suggestionToken minSuggestionCount rest finalResults
         | Inl NotAuthorizedError \<Rightarrow>
             reduceCandidates env restr model suggestionToken minSuggestionCount rest finalResults
         | Inl e \<Rightarrow> Inl e))"

definition loadAndReduce ::
  "Env \<Rightarrow> SearchRestriction \<Rightarrow> IdTuple list \<Rightarrow> string \<Rightarrow> nat \<Rightarrow> error + IdTuple list" where
  "loadAndReduce env restr rs suggestionToken minSuggestionCount =
     (if length rs > 0 then
        reduceCandidates env restr (resolveTypeReference env (r_type restr)) suggestionToken
          minSuggestionCount rs []
      else Inr [])"

section \<open>The search\<close>

text \<open>Sorting id tuples newest first compares their element ids.\<close>

definition sortNewestFirst :: "IdTuple list \<Rightarrow> IdTuple list" where
  "sortNewestFirst rs = sort_cmp (\<lambda>a b. compareNewestFirst (snd a) (snd b)) rs"

definition search ::
  "Env \<Rightarrow> string \<Rightarrow> SearchRestriction \<Rightarrow> nat \<Rightarrow> nat option \<Rightarrow> error + SearchResult" where
  "search env query' restr minSuggestionCount maxResults =
     (let searchTokens = tokenize env query';
          result = \<lparr> query = query',
                     restriction = restr,
                     results = [],
                     currentIndexTimestamp = getSearchEndTimestamp env restr,
                     moreResultsEntries = [],
                     lastReadSearchIndexRow = map (\<lambda>token. (token, None)) searchTokens,
                     matchWordOrder = (length searchTokens > 1 \<and> startsWith query' [CHR 0x22]
                                        \<and> endsWith query' [CHR 0x22]) \<rparr>
      in if length searchTokens > 0 then
           (let isFirstWordSearch = (length searchTokens = 1);
                suggestionFacade = find (\<lambda>f. isSameTypeRef (sf_type f) (r_type restr))
                                        (suggestionFacades env)
            in if minSuggestionCount > 0 \<and> isFirstWordSearch \<and> suggestionFacade \<noteq> None then
                 searchForTokens env result
                   (getSuggestions (the suggestionFacade) (searchTokens ! 0)) maxResults
               else if minSuggestionCount > 0 \<and> \<not> isFirstWordSearch \<and> suggestionFacade \<noteq> None
               then
                 (let suggestionToken = fst (last (lastReadSearchIndexRow result));
                      popped = result\<lparr> lastReadSearchIndexRow :=
                                 butlast (lastReadSearchIndexRow result) \<rparr>
                  in case searchForTokens env popped [suggestionToken] None of
                       Inl e \<Rightarrow> Inl e
                     | Inr searched \<Rightarrow>
                         (case loadAndReduce env restr (sortNewestFirst (results searched))
                                 suggestionToken minSuggestionCount of
                            Inl e \<Rightarrow> Inl e
                          | Inr filteredResults \<Rightarrow>
                              Inr (searched\<lparr> results := sortNewestFirst filteredResults \<rparr>)))
               else
                 (case searchForTokens env result [] maxResults of
                    Inl e \<Rightarrow> Inl e
                  | Inr searched \<Rightarrow>
                      Inr (searched\<lparr> results := sortNewestFirst (results searched) \<rparr>)))
         else Inr result)"

text \<open>A run of further pages on the result of a search, one page size per page.\<close>

fun getMorePages :: "Env \<Rightarrow> SearchResult \<Rightarrow> nat list \<Rightarrow> error + SearchResult" where
  "getMorePages env searchResult [] = Inr searchResult"
| "getMorePages env searchResult (moreResultCount # counts) =
     (case getMoreSearchResults env searchResult moreResultCount of
        Inl e \<Rightarrow> Inl e
      | Inr next \<Rightarrow> getMorePages env next counts)"

text \<open>A search followed by a run of further pages on its result.\<close>

definition searchThenMore ::
  "Env \<Rightarrow> string \<Rightarrow> SearchRestriction \<Rightarrow> nat \<Rightarrow> nat option \<Rightarrow> nat list
     \<Rightarrow> error + SearchResult" where
  "searchThenMore env query' restr minSuggestionCount maxResults counts =
     (case search env query' restr minSuggestionCount maxResults of
        Inl e \<Rightarrow> Inl e
      | Inr result \<Rightarrow> getMorePages env result counts)"



section \<open>What the specification says, in its own words\<close>

text \<open>A query is fully enclosed in double quotes: it starts with one and ends with one.\<close>

definition enclosedInDoubleQuotes :: "string \<Rightarrow> bool" where
  "enclosedInDoubleQuotes q = (q \<noteq> [] \<and> hd q = CHR 0x22 \<and> last q = CHR 0x22)"

text \<open>
  The default horizon of a restriction without an end, by type: the indexer's horizon for
  mails (the present when nothing is indexed), everything for the other types.
\<close>

definition defaultHorizon :: "Env \<Rightarrow> SearchRestriction \<Rightarrow> int" where
  "defaultHorizon env restr =
     (if r_type restr = MailTypeRef then
        (if indexerTimestamp env = NOTHING_INDEXED_TIMESTAMP env then dateNow env
         else indexerTimestamp env)
      else FULL_INDEXED_TIMESTAMP env)"

text \<open>
  The acceptance condition of the constraint filter as the specification words it, where
  a field is set when it is there.
\<close>

definition acceptSpec :: "Env \<Rightarrow> SearchRestriction \<Rightarrow> SearchIndexEntry \<Rightarrow> bool" where
  "acceptSpec env restr entry =
     ((r_attributeIds restr = None \<or> e_attribute entry \<in> set (the (r_attributeIds restr)))
      \<and> e_id entry \<ge> timestampToGeneratedId env
            (case r_end restr of Some t \<Rightarrow> t | None \<Rightarrow> defaultHorizon env restr)
      \<and> (r_start restr = None
           \<or> e_id entry < timestampToGeneratedId env (the (r_start restr) + 1)))"

text \<open>
  The same condition where a timestamp is set when it is there and not \<open>0\<close>, which is
  how the code reads it.
\<close>

definition acceptTruthy :: "Env \<Rightarrow> SearchRestriction \<Rightarrow> SearchIndexEntry \<Rightarrow> bool" where
  "acceptTruthy env restr entry =
     ((r_attributeIds restr = None \<or> e_attribute entry \<in> set (the (r_attributeIds restr)))
      \<and> e_id entry \<ge> timestampToGeneratedId env
            (if r_end restr = None \<or> r_end restr = Some 0 then defaultHorizon env restr
             else the (r_end restr))
      \<and> (r_start restr = None \<or> r_start restr = Some 0
           \<or> e_id entry < timestampToGeneratedId env (the (r_start restr) + 1)))"

text \<open>
  The phrase reducer in the words of the specification. For a first-word entry \<open>e1\<close>,
  the entry of a later word that goes with it is one with the same id and the same
  attribute. \<open>e1\<close> is kept when every later word \<open>i\<close> has such an entry and some
  position \<open>p\<close> of \<open>e1\<close> has \<open>p + i\<close> among the positions of the entry of word
  \<open>i\<close>, for all of them.
\<close>

definition matchingEntry :: "SearchIndexEntry \<Rightarrow> SearchIndexEntry KeyToEntries \<Rightarrow> SearchIndexEntry option" where
  "matchingEntry e1 r =
     find (\<lambda>e. e_id e = e_id e1 \<and> e_attribute e = e_attribute e1) (indexEntries r)"

definition phraseKeepSpec :: "SearchIndexEntry KeyToEntries list \<Rightarrow> SearchIndexEntry \<Rightarrow> bool" where
  "phraseKeepSpec rs e1 =
     (list_all (\<lambda>i. matchingEntry e1 (rs ! i) \<noteq> None) [1..<length rs]
      \<and> list_ex (\<lambda>p. list_all (\<lambda>i. p + i \<in> set (e_positions (the (matchingEntry e1 (rs ! i)))))
                              [1..<length rs])
                 (e_positions e1))"

text \<open>
  The suggestion filter in the words of the specification. A candidate passes when its
  entity loads and holds a word with the suggestion token as prefix; a load fails when
  it ends in an error other than \<open>NotFound\<close> and \<open>NotAuthorized\<close>. The candidates
  are taken in order up to the first failing load; the answer is the first
  \<open>minSuggestionCount\<close> passing candidates when that many pass before the failing load
  or when no load fails, and the error of the failing load otherwise.
\<close>

definition passesPrefixCheck :: "Env \<Rightarrow> SearchRestriction \<Rightarrow> string \<Rightarrow> IdTuple \<Rightarrow> bool" where
  "passesPrefixCheck env restr suggestionToken candidate =
     (case load env (r_type restr) candidate of
        Inr entity \<Rightarrow>
          containsSuggestionToken env entity (resolveTypeReference env (r_type restr))
            (r_attributeIds restr) suggestionToken
      | Inl e \<Rightarrow> False)"

definition loadFails :: "Env \<Rightarrow> SearchRestriction \<Rightarrow> IdTuple \<Rightarrow> bool" where
  "loadFails env restr candidate =
     (case load env (r_type restr) candidate of
        Inl e \<Rightarrow> e \<noteq> NotFoundError \<and> e \<noteq> NotAuthorizedError
      | Inr entity \<Rightarrow> False)"

definition loadAndReduceSpec ::
  "Env \<Rightarrow> SearchRestriction \<Rightarrow> IdTuple list \<Rightarrow> string \<Rightarrow> nat \<Rightarrow> error + IdTuple list" where
  "loadAndReduceSpec env restr rs suggestionToken minSuggestionCount =
     (let passing = filter (passesPrefixCheck env restr suggestionToken);
          reached = takeWhile (\<lambda>c. \<not> loadFails env restr c) rs
      in if minSuggestionCount \<le> length (passing reached) \<or> reached = rs
         then Inr (take minSuggestionCount (passing rs))
         else Inl (projl (load env (r_type restr) (rs ! length reached))))"

text \<open>A suggestion facade is registered for the type of a restriction.\<close>

definition facadeRegistered :: "Env \<Rightarrow> SearchRestriction \<Rightarrow> bool" where
  "facadeRegistered env restr =
     (find (\<lambda>f. isSameTypeRef (sf_type f) (r_type restr)) (suggestionFacades env) \<noteq> None)"


text \<open>
  A phrase query: at least two terms, enclosed in double quotes. And what the store is
  expected to give: entries that decrypt to the same id carry the same encrypted id,
  since the index encrypts ids without randomization.
\<close>

definition phraseQuery :: "Env \<Rightarrow> string \<Rightarrow> bool" where
  "phraseQuery env q = (2 \<le> length (tokenize env q) \<and> enclosedInDoubleQuotes q)"

definition deterministicIds :: "Env \<Rightarrow> bool" where
  "deterministicIds env =
     (\<forall>b b'. e_id (decryptSearchIndexEntry env b) = e_id (decryptSearchIndexEntry env b')
        \<longrightarrow> e_encId (decryptSearchIndexEntry env b) = e_encId (decryptSearchIndexEntry env b'))"

section \<open>An example store\<close>

text \<open>
  A small store for the scenarios: a tokenizer that splits at blanks and double quotes,
  keys and rows that are stored in the clear, one chunk of postings per word, and a block
  \<open>[id, attribute, position, \<dots>]\<close> per posting.
\<close>

fun splitWords :: "string \<Rightarrow> string \<Rightarrow> string list" where
  "splitWords cur [] = (if cur = [] then [] else [cur])"
| "splitWords cur (c # cs) =
     (if c = CHR '' '' \<or> c = CHR 0x22
      then (if cur = [] then splitWords [] cs else cur # splitWords [] cs)
      else splitWords (cur @ [c]) cs)"

fun decodeRows :: "bytes \<Rightarrow> SearchIndexMetadataEntry list" where
  "decodeRows (k # n # rest) =
     \<lparr> m_key = k, m_size = n, m_app = 0, m_type = 1 \<rparr> # decodeRows rest"
| "decodeRows _ = []"

definition decodeEntry :: "bytes \<Rightarrow> SearchIndexEntry" where
  "decodeEntry b =
     \<lparr> e_id = (case b of [] \<Rightarrow> 0 | i # _ \<Rightarrow> i),
       e_encId = [case b of [] \<Rightarrow> 0 | i # _ \<Rightarrow> i],
       e_attribute = (case b of _ # a # _ \<Rightarrow> a | _ \<Rightarrow> 0),
       e_positions = drop 2 b \<rparr>"

definition exContactTypeRef :: TypeRef where
  "exContactTypeRef = TypeRef ''tutanota'' ''Contact''"

definition exMetaData :: "string \<Rightarrow> bytes option" where
  "exMetaData k =
     (if k = ''alpha'' then Some [1, 3]
      else if k = ''beta'' then Some [2, 3]
      else if k = ''food'' then Some [3, 1]
      else if k = ''fool'' then Some [4, 1]
      else if k = ''foot'' then Some [5, 1]
      else None)"

definition exSearchIndex :: "nat \<Rightarrow> bytes list option" where
  "exSearchIndex k =
     (if k = 1 then Some [[100, 1, 3], [90, 1, 1], [80, 1, 2]]
      else if k = 2 then Some [[100, 1, 4], [80, 1, 7], [70, 1, 1]]
      else if k = 3 then Some [[100, 1, 1]]
      else if k = 4 then Some [[90, 1, 1]]
      else if k = 5 then Some [[80, 1, 1]]
      else None)"

definition exBase64 :: "bytes \<Rightarrow> string" where
  "exBase64 b =
     (if b = [100] then ''100'' else if b = [90] then ''90''
      else if b = [80] then ''80'' else if b = [70] then ''70'' else [])"

definition exElementData :: "string \<Rightarrow> ElementDataDbRow option" where
  "exElementData k =
     (if k = ''100'' \<or> k = ''90'' \<or> k = ''80'' \<or> k = ''70''
      then Some (''L'', [], ''G'') else None)"

definition exLoad :: "TypeRef \<Rightarrow> IdTuple \<Rightarrow> error + Val" where
  "exLoad t i =
     (if snd i = 100 then Inr (VObject [(''comment'', VString ''alpha beta'')])
      else if snd i = 90 then Inl NotFoundError
      else if snd i = 80 then Inr (VObject [(''comment'', VString ''alpha gamma'')])
      else Inl (OtherError ''connection lost''))"

definition exModel :: TypeModel where
  "exModel = \<lparr> tm_app = ''tutanota'',
      tm_values = [(''comment'', \<lparr> mv_id = 1, mv_type = String \<rparr>)],
      tm_associations = [] \<rparr>"

definition exEnv :: Env where
  "exEnv = \<lparr> tokenize = splitWords [],
      suggestionFacades =
        [\<lparr> sf_type = exContactTypeRef,
           getSuggestions = (\<lambda>t. if t = ''foo'' then [''food'', ''fool'', ''foot''] else []) \<rparr>],
      indexerTimestamp = 0,
      dateNow = 1000,
      FULL_INDEXED_TIMESTAMP = 0,
      NOTHING_INDEXED_TIMESTAMP = 4398046511103,
      timestampToGeneratedId = nat,
      getStartOfDay = (\<lambda>t. t - t mod 86400000),
      typeRefToTypeInfo = (\<lambda>t. (0, 1)),
      encryptIndexKeyBase64 = (\<lambda>t. t),
      metaDataOS = exMetaData,
      decryptMetaData = decodeRows,
      searchIndexOS = exSearchIndex,
      getIdFromEncSearchIndexEntry = take 1,
      arrayHash = sum_list,
      decryptSearchIndexEntry = decodeEntry,
      uint8ArrayToBase64 = exBase64,
      elementDataOS = exElementData,
      load = exLoad,
      resolveTypeReference = (\<lambda>t. exModel) \<rparr>"

definition exQuotedQuery :: string where
  "exQuotedQuery = [CHR 0x22] @ ''alpha beta'' @ [CHR 0x22]"

definition exRestriction :: SearchRestriction where
  "exRestriction = \<lparr> r_type = exContactTypeRef, r_attributeIds = None, r_listId = None,
      r_start = None, r_end = None \<rparr>"

text \<open>A restriction whose start is the epoch, and one with a whitelist and a window.\<close>

definition exStartZero :: SearchRestriction where
  "exStartZero = exRestriction\<lparr> r_start := Some 0 \<rparr>"

definition exWindow :: SearchRestriction where
  "exWindow = exRestriction\<lparr> r_attributeIds := Some [1, 2], r_start := Some 95,
     r_end := Some 85 \<rparr>"

text \<open>The postings of scenario S2, after the filters.\<close>

definition exPhraseEntries :: "SearchIndexEntry KeyToEntries list" where
  "exPhraseEntries =
     [\<lparr> indexKey = ''alpha'', indexEntries = map decodeEntry [[100, 1, 3], [80, 1, 2]] \<rparr>,
      \<lparr> indexKey = ''beta'', indexEntries = map decodeEntry [[100, 1, 4], [80, 1, 7]] \<rparr>]"

text \<open>
  Candidates for the suggestion filter: the entity of \<open>100\<close> reads \<open>alpha beta\<close>, the
  one of \<open>90\<close> is not found, the one of \<open>80\<close> reads \<open>alpha gamma\<close>, and loading the
  one of \<open>70\<close> loses the connection.
\<close>

definition exCandidates :: "IdTuple list" where
  "exCandidates = [(''L'', 100), (''L'', 90), (''L'', 80), (''L'', 70)]"




section \<open>What a page leaves untouched\<close>

lemma startOrContinueSearch_fields:
  assumes "startOrContinueSearch env sr m = Inr sr'"
  shows "matchWordOrder sr' = matchWordOrder sr" "query sr' = query sr"
    "restriction sr' = restriction sr" "moreResultsEntries sr' = moreResultsEntries sr"
    "map fst (lastReadSearchIndexRow sr') = map fst (lastReadSearchIndexRow sr)"
    "currentIndexTimestamp sr' = currentIndexTimestamp sr"
  using assms
  by (auto simp: startOrContinueSearch_def Let_def filterByListIdAndGroupSearchResults_def
      findIndexEntries_def findEntriesForSearchToken_def split: sum.splits prod.splits)

text \<open>A page on a cursor with at least one row returns.\<close>

lemma startOrContinueSearch_total:
  assumes "lastReadSearchIndexRow sr \<noteq> []"
  shows "\<exists>sr'. startOrContinueSearch env sr m = Inr sr'"
proof -
  have "filterByTypeAndAttributeAndTime env
          (decryptSearchResult env (filterByEncryptedId (map snd (findIndexEntries env sr m))))
          (restriction sr) \<noteq> []"
    using assms
    by (simp add: filterByTypeAndAttributeAndTime_def decryptSearchResult_def
        filterByEncryptedId_def findIndexEntries_def Let_def)
  then show ?thesis
    by (auto simp: startOrContinueSearch_def Let_def reduceWords_def split: list.splits)
qed

section \<open>Phrase mode is switched on by a quoted query of several words\<close>

lemma startsWith_single: "startsWith q [c] = (q \<noteq> [] \<and> hd q = c)"
  by (cases q) (auto simp: startsWith_def)

lemma endsWith_single: "endsWith q [c] = (q \<noteq> [] \<and> last q = c)"
proof (cases q rule: rev_cases)
  case Nil
  then show ?thesis by (simp add: endsWith_def)
next
  case (snoc ys y)
  then show ?thesis by (auto simp: endsWith_def)
qed

text \<open>
  C8. Whenever \<open>search\<close> returns a result, its \<open>matchWordOrder\<close> is true exactly when
  the tokenizer gives at least two terms for the query and the query starts and ends
  with a double quote.
\<close>

theorem search_matchWordOrder:
  assumes "search env q restr minSuggestionCount maxResults = Inr result"
  shows "matchWordOrder result = (2 \<le> length (tokenize env q) \<and> enclosedInDoubleQuotes q)"
proof -
  have quoted: "(startsWith q [CHR 0x22] \<and> endsWith q [CHR 0x22]) = enclosedInDoubleQuotes q"
    by (auto simp: startsWith_single endsWith_single enclosedInDoubleQuotes_def)
  show ?thesis
    using assms quoted
    by (auto simp: search_def Let_def searchForTokens_def
        dest!: startOrContinueSearch_fields(1) split: if_splits sum.splits)
qed

theorem search_matchWordOrder_witness:
  "search exEnv exQuotedQuery exRestriction 0 (Some 10)
     = Inr \<lparr> query = exQuotedQuery,
             restriction = exRestriction, results = [(''L'', 100)], currentIndexTimestamp = 0,
             moreResultsEntries = [],
             lastReadSearchIndexRow = [(''alpha'', Some 1), (''beta'', Some 2)],
             matchWordOrder = True \<rparr>
   \<and> 2 \<le> length (tokenize exEnv exQuotedQuery)
   \<and> enclosedInDoubleQuotes exQuotedQuery"
proof -
  have run: "search exEnv exQuotedQuery exRestriction 0 (Some 10)
     = Inr \<lparr> query = exQuotedQuery,
             restriction = exRestriction, results = [(''L'', 100)], currentIndexTimestamp = 0,
             moreResultsEntries = [],
             lastReadSearchIndexRow = [(''alpha'', Some 1), (''beta'', Some 2)],
             matchWordOrder = True \<rparr>"
    by code_simp
  from search_matchWordOrder [OF run] show ?thesis using run by simp
qed

section \<open>The constraint filter accepts by whitelist and id window\<close>

lemma getSearchEndTimestamp_eq:
  "getSearchEndTimestamp env restr =
     (if r_end restr = None \<or> r_end restr = Some 0 then defaultHorizon env restr
      else the (r_end restr))"
  by (cases "r_type restr")
    (auto simp: getSearchEndTimestamp_def defaultHorizon_def truthy_def isSameTypeRef_def
      MailTypeRef_def split: option.splits)

text \<open>
  C4, as stated, fails where the start of the restriction is the timestamp \<open>0\<close>: the
  code reads a start of \<open>0\<close> as no start, puts no upper bound on the ids and accepts the
  entry with id \<open>100\<close>, which the stated condition rejects because \<open>100\<close> is not below
  the id of timestamp \<open>1\<close>.
\<close>

theorem constraint_filter_counterexample:
  "isValidAttributeAndTime exStartZero (decodeEntry [100, 1, 3])
       (minIncludedId exEnv exStartZero) (maxExcludedId exEnv exStartZero)
   \<and> \<not> acceptSpec exEnv exStartZero (decodeEntry [100, 1, 3])"
  by (simp add: isValidAttributeAndTime_def minIncludedId_def maxExcludedId_def acceptSpec_def
      exStartZero_def exRestriction_def exEnv_def decodeEntry_def truthy_def
      getSearchEndTimestamp_def firstBiggerThanSecond_def defaultHorizon_def
      exContactTypeRef_def MailTypeRef_def isSameTypeRef_def)

text \<open>
  C4, amended. With the bounds that \<open>_filterByTypeAndAttributeAndTime\<close> computes, the
  filter accepts an entry exactly when its attribute is whitelisted (or there is no
  whitelist), its id is at least the id of the end timestamp, and its id is below the id
  of the start plus one millisecond (or the start is unset or \<open>0\<close>); the end timestamp is
  the restriction's end when that is set and not \<open>0\<close>, the default horizon of the type
  otherwise.
\<close>

theorem constraint_filter_accepts:
  "isValidAttributeAndTime restr entry (minIncludedId env restr) (maxExcludedId env restr)
     = acceptTruthy env restr entry"
  unfolding isValidAttributeAndTime_def minIncludedId_def maxExcludedId_def acceptTruthy_def
    getSearchEndTimestamp_eq
  by (auto simp: truthy_def firstBiggerThanSecond_def contains_def split: option.splits)

theorem constraint_filter_accepts_witness:
  "isValidAttributeAndTime exWindow (decodeEntry [90, 1, 3])
       (minIncludedId exEnv exWindow) (maxExcludedId exEnv exWindow)
   \<and> acceptTruthy exEnv exWindow (decodeEntry [90, 1, 3])
   \<and> \<not> isValidAttributeAndTime exWindow (decodeEntry [100, 1, 3])
       (minIncludedId exEnv exWindow) (maxExcludedId exEnv exWindow)"
proof -
  have "acceptTruthy exEnv exWindow (decodeEntry [90, 1, 3])"
    by (simp add: acceptTruthy_def exWindow_def exRestriction_def exEnv_def decodeEntry_def)
  moreover have "\<not> acceptTruthy exEnv exWindow (decodeEntry [100, 1, 3])"
    by (simp add: acceptTruthy_def exWindow_def exRestriction_def exEnv_def decodeEntry_def)
  ultimately show ?thesis
    using constraint_filter_accepts [of exWindow "decodeEntry [90, 1, 3]" exEnv]
      constraint_filter_accepts [of exWindow "decodeEntry [100, 1, 3]" exEnv]
    by simp
qed

section \<open>The phrase reducer keeps the entries whose words stand in a row\<close>

lemma find_truthy:
  "0 < (k::nat) \<Longrightarrow>
   (case find (\<lambda>position. position = k) ps of None \<Rightarrow> False | Some position \<Rightarrow> position \<noteq> 0)
     = (k \<in> set ps)"
  by (induction ps) auto

lemma find_position_truthy:
  "1 \<le> (i::nat) \<Longrightarrow>
   (case find (\<lambda>position. position = p + i) ps of None \<Rightarrow> False | Some position \<Rightarrow> position \<noteq> 0)
     = (p + i \<in> set ps)"
  by (rule find_truthy) simp

lemma all_less_Suc_shift: "(\<forall>j<Suc n. Q j) = (Q 0 \<and> (\<forall>j<n. Q (Suc j)))"
  by (auto simp: less_Suc_eq_0_disj)

lemma reducePositions_eq:
  "1 \<le> i \<Longrightarrow>
   reducePositions e1 rs i P =
     (if \<forall>j<length rs. matchingEntry e1 (rs ! j) \<noteq> None
      then filter (\<lambda>p. \<forall>j<length rs.
                      p + (i + j) \<in> set (e_positions (the (matchingEntry e1 (rs ! j))))) P
      else [])"
proof (induction rs arbitrary: i P)
  case Nil
  then show ?case by simp
next
  case (Cons r rs)
  have step: "1 \<le> i + 1" by simp
  show ?case
  proof (cases "matchingEntry e1 r")
    case None
    then show ?thesis
      using Cons.IH [OF step, of "[]"]
      by (auto simp: matchingEntry_def)
  next
    case (Some entry)
    have "reducePositions e1 (r # rs) i P =
            reducePositions e1 rs (i + 1) (filter (\<lambda>p. p + i \<in> set (e_positions entry)) P)"
      using Some Cons.prems by (simp add: matchingEntry_def find_position_truthy)
    also have "\<dots> =
        (if \<forall>j<length rs. matchingEntry e1 (rs ! j) \<noteq> None
         then filter (\<lambda>p. \<forall>j<length rs.
                 p + (i + 1 + j) \<in> set (e_positions (the (matchingEntry e1 (rs ! j)))))
               (filter (\<lambda>p. p + i \<in> set (e_positions entry)) P)
         else [])"
      by (rule Cons.IH [OF step])
    also have "\<dots> =
        (if \<forall>j<length (r # rs). matchingEntry e1 ((r # rs) ! j) \<noteq> None
         then filter (\<lambda>p. \<forall>j<length (r # rs).
                 p + (i + j) \<in> set (e_positions (the (matchingEntry e1 ((r # rs) ! j))))) P
         else [])"
      using Some by (auto simp: all_less_Suc_shift conj_commute intro!: filter_cong)
    finally show ?thesis .
  qed
qed

lemma list_all_from_one:
  "list_all Q [Suc 0..<Suc n] = (\<forall>j<n. Q (Suc j))"
proof -
  have "(\<forall>i\<in>{Suc 0..<Suc n}. Q i) = (\<forall>j<n. Q (Suc j))"
  proof
    assume h: "\<forall>i\<in>{Suc 0..<Suc n}. Q i"
    show "\<forall>j<n. Q (Suc j)"
    proof (intro allI impI)
      fix j assume "j < n"
      then have "Suc j \<in> {Suc 0..<Suc n}" by simp
      with h show "Q (Suc j)" by blast
    qed
  next
    assume h: "\<forall>j<n. Q (Suc j)"
    show "\<forall>i\<in>{Suc 0..<Suc n}. Q i"
    proof
      fix i assume "i \<in> {Suc 0..<Suc n}"
      then obtain j where "i = Suc j" "j < n" by (cases i) auto
      with h show "Q i" by simp
    qed
  qed
  then show ?thesis by (simp add: list_all_iff del: upt_Suc)
qed

lemma phraseKeepSpec_Cons:
  "phraseKeepSpec (r0 # rest) e1 =
     (0 < length (reducePositions e1 rest 1 (e_positions e1)))"
proof -
  let ?found = "\<forall>j<length rest. matchingEntry e1 (rest ! j) \<noteq> None"
  let ?ok = "\<lambda>p. \<forall>j<length rest.
                      p + (1 + j) \<in> set (e_positions (the (matchingEntry e1 (rest ! j))))"
  have red: "reducePositions e1 rest 1 (e_positions e1) =
     (if ?found then filter ?ok (e_positions e1) else [])"
    by (rule reducePositions_eq) simp
  have spec: "phraseKeepSpec (r0 # rest) e1 = (?found \<and> (\<exists>p\<in>set (e_positions e1). ?ok p))"
    by (simp add: phraseKeepSpec_def list_all_from_one list_ex_iff del: upt_Suc)
  have "(0 < length (reducePositions e1 rest 1 (e_positions e1)))
          = (?found \<and> (\<exists>p\<in>set (e_positions e1). ?ok p))"
    unfolding red by (simp add: filter_empty_conv)
  with spec show ?thesis by simp
qed

text \<open>
  C5. For a non-empty list of per-word entries, \<open>_reduceWords\<close> in phrase mode answers
  the first word's entries filtered by the specification's condition (each later word
  \<open>i\<close> has an entry of the same id and attribute, and some position \<open>p\<close> survives with
  \<open>p + i\<close> among that entry's positions for every \<open>i\<close>), in their order; without phrase
  mode it answers the first word's entries as they are.
\<close>

theorem reduceWords_phrase:
  assumes "rs \<noteq> []"
  shows "reduceWords rs wordOrder =
           Inr (if wordOrder then filter (phraseKeepSpec rs) (indexEntries (hd rs))
                else indexEntries (hd rs))"
proof -
  obtain r0 rest where rs: "rs = r0 # rest"
    using assms by (cases rs) auto
  have keep: "phraseKeepSpec (r0 # rest) =
      (\<lambda>e1. 0 < length (reducePositions e1 rest 1 (e_positions e1)))"
    by (rule ext) (rule phraseKeepSpec_Cons)
  show ?thesis
    unfolding rs keep by (simp add: reduceWords_def)
qed

theorem reduceWords_phrase_witness:
  "exPhraseEntries \<noteq> []
   \<and> reduceWords exPhraseEntries True = Inr [decodeEntry [100, 1, 3]]
   \<and> filter (phraseKeepSpec exPhraseEntries) (indexEntries (hd exPhraseEntries))
        = [decodeEntry [100, 1, 3]]
   \<and> reduceWords exPhraseEntries False = Inr (map decodeEntry [[100, 1, 3], [80, 1, 2]])"
proof -
  have ne: "exPhraseEntries \<noteq> []" by (simp add: exPhraseEntries_def)
  have run: "reduceWords exPhraseEntries True = Inr [decodeEntry [100, 1, 3]]"
    by code_simp
  have hd: "indexEntries (hd exPhraseEntries) = map decodeEntry [[100, 1, 3], [80, 1, 2]]"
    by (simp add: exPhraseEntries_def)
  from reduceWords_phrase [OF ne, of True] reduceWords_phrase [OF ne, of False] run hd ne
  show ?thesis by simp
qed

section \<open>The suggestion filter loads until enough candidates pass\<close>

lemma reduceCandidates_eq:
  "reduceCandidates env restr (resolveTypeReference env (r_type restr)) tok msc rs acc =
     (if msc - length acc \<le> length (filter (passesPrefixCheck env restr tok)
                                      (takeWhile (\<lambda>c. \<not> loadFails env restr c) rs))
         \<or> takeWhile (\<lambda>c. \<not> loadFails env restr c) rs = rs
      then Inr (acc @ take (msc - length acc) (filter (passesPrefixCheck env restr tok) rs))
      else Inl (projl (load env (r_type restr)
                  (rs ! length (takeWhile (\<lambda>c. \<not> loadFails env restr c) rs)))))"
  (is "?R rs acc = ?S rs acc")
proof (induction rs arbitrary: acc)
  case Nil
  then show ?case by simp
next
  case (Cons c rs)
  let ?P = "passesPrefixCheck env restr tok"
  let ?Q = "\<lambda>c. \<not> loadFails env restr c"
  show ?case
  proof (cases "msc \<le> length acc")
    case True
    then have "?R (c # rs) acc = ?R rs acc" by simp
    moreover have "?S (c # rs) acc = Inr acc" "?S rs acc = Inr acc" using True by simp_all
    ultimately show ?thesis using Cons.IH [of acc] by simp
  next
    case False
    note open_slot = False
    show ?thesis
    proof (cases "load env (r_type restr) c")
      case (Inr entity)
      then have nofail: "\<not> loadFails env restr c" by (simp add: loadFails_def)
      show ?thesis
      proof (cases "?P c")
        case True
        then have step: "?R (c # rs) acc = ?R rs (acc @ [c])"
          using Inr open_slot by (simp add: passesPrefixCheck_def)
        have "msc - length acc = Suc (msc - length (acc @ [c]))"
          using open_slot by simp
        then have "?S (c # rs) acc = ?S rs (acc @ [c])"
          using True nofail by simp
        with step Cons.IH [of "acc @ [c]"] show ?thesis by simp
      next
        case notp: False
        then have step: "?R (c # rs) acc = ?R rs acc"
          using Inr open_slot by (simp add: passesPrefixCheck_def)
        have "?S (c # rs) acc = ?S rs acc"
          using notp nofail by simp
        with step Cons.IH [of acc] show ?thesis by simp
      qed
    next
      case (Inl e)
      then have notp: "\<not> ?P c" by (simp add: passesPrefixCheck_def)
      show ?thesis
      proof (cases "e = NotFoundError \<or> e = NotAuthorizedError")
        case True
        then have nofail: "\<not> loadFails env restr c" using Inl by (auto simp: loadFails_def)
        have step: "?R (c # rs) acc = ?R rs acc"
          using Inl open_slot True by auto
        have "?S (c # rs) acc = ?S rs acc"
          using notp nofail by simp
        with step Cons.IH [of acc] show ?thesis by simp
      next
        case False
        then have fail: "loadFails env restr c" using Inl by (simp add: loadFails_def)
        have step: "?R (c # rs) acc = Inl e"
          using Inl open_slot False by (cases e) auto
        have "?S (c # rs) acc = Inl e"
          using fail open_slot Inl by simp
        with step show ?thesis by simp
      qed
    qed
  qed
qed

text \<open>
  C7. \<open>_loadAndReduce\<close> goes through the candidates in result order, keeps the first
  \<open>minSuggestionCount\<close> that pass the prefix check and loads none after that, skips a
  candidate whose load ends in \<open>NotFound\<close> or \<open>NotAuthorized\<close>, and answers the
  error of any other failing load that it reaches.
\<close>

theorem loadAndReduce_spec:
  "loadAndReduce env restr rs suggestionToken minSuggestionCount
     = loadAndReduceSpec env restr rs suggestionToken minSuggestionCount"
proof (cases rs)
  case Nil
  then show ?thesis by (simp add: loadAndReduce_def loadAndReduceSpec_def)
next
  case (Cons c cs)
  then have "loadAndReduce env restr rs suggestionToken minSuggestionCount =
      reduceCandidates env restr (resolveTypeReference env (r_type restr)) suggestionToken
          minSuggestionCount rs []"
    by (simp add: loadAndReduce_def)
  then show ?thesis
    by (simp add: reduceCandidates_eq loadAndReduceSpec_def Let_def)
qed

theorem loadAndReduce_spec_witness:
  "loadAndReduce exEnv exRestriction exCandidates ''al'' 2 = Inr [(''L'', 100), (''L'', 80)]
   \<and> loadAndReduce exEnv exRestriction exCandidates ''be'' 1 = Inr [(''L'', 100)]
   \<and> loadAndReduce exEnv exRestriction exCandidates ''be'' 5
        = Inl (OtherError ''connection lost'')"
proof -
  have "loadAndReduceSpec exEnv exRestriction exCandidates ''al'' 2
          = Inr [(''L'', 100), (''L'', 80)]"
    by code_simp
  moreover have "loadAndReduceSpec exEnv exRestriction exCandidates ''be'' 1
          = Inr [(''L'', 100)]"
    by code_simp
  moreover have "loadAndReduceSpec exEnv exRestriction exCandidates ''be'' 5
          = Inl (OtherError ''connection lost'')"
    by code_simp
  ultimately show ?thesis
    using loadAndReduce_spec [of exEnv exRestriction exCandidates]
    by simp
qed

section \<open>The suggestion search of several words reads the words before the last\<close>



text \<open>The entries that a token's row brings are the blocks of the chunks it gets.\<close>

lemma findEntriesForSearchToken_reads:
  "map encEntry (indexEntries (snd (findEntriesForSearchToken env restr m info)))
     = concat (map (\<lambda>a. case a of
                           MetaDataGet k \<Rightarrow> []
                         | SearchIndexGet k \<Rightarrow>
                             (case searchIndexOS env k of None \<Rightarrow> [] | Some blocks \<Rightarrow> blocks))
                   (tokenReads env restr m info))
   \<and> hd (tokenReads env restr m info)
     = MetaDataGet (indexKey (snd (findEntriesForSearchToken env restr m info)))"
proof -
  have "findEntriesForMetadata env
      = (\<lambda>entry. case searchIndexOS env (m_key entry) of None \<Rightarrow> [] | Some blocks \<Rightarrow> blocks)"
    by (rule ext) (simp add: findEntriesForMetadata_def)
  then show ?thesis
    by (simp add: findEntriesForSearchToken_def tokenReads_def comp_def split: prod.splits)
qed








section \<open>The order of the tokens does not change what an AND-search finds\<close>

lemma foldl_inter_Some:
  "foldl (\<lambda>m k. case m of None \<Rightarrow> Some (set (F k))
                  | Some s \<Rightarrow> Some (set (filter (\<lambda>x. x \<in> s) (F k)))) (Some A) K
     = Some (A \<inter> (\<Inter>k\<in>set K. set (F k)))"
proof (induction K arbitrary: A)
  case Nil
  then show ?case by simp
next
  case (Cons k K)
  have "set (filter (\<lambda>x. x \<in> A) (F k)) = A \<inter> set (F k)" by auto
  then show ?case by (simp add: Cons.IH Int_assoc)
qed

lemma foldl_inter_None:
  assumes "K \<noteq> []"
  shows "foldl (\<lambda>m k. case m of None \<Rightarrow> Some (set (F k))
                  | Some s \<Rightarrow> Some (set (filter (\<lambda>x. x \<in> s) (F k)))) None K
     = Some (\<Inter>k\<in>set K. set (F k))"
proof -
  obtain k K' where K: "K = k # K'" using assms by (cases K) auto
  show ?thesis unfolding K by (simp add: foldl_inter_Some)
qed

lemma matchingEncIds_eq:
  "K \<noteq> [] \<Longrightarrow> matchingEncIds K = Some (\<Inter>k\<in>set K. set (map idHash (indexEntries k)))"
  unfolding matchingEncIds_def by (rule foldl_inter_None)

lemma matchingIds_eq:
  "K \<noteq> [] \<Longrightarrow> matchingIds K = Some (\<Inter>k\<in>set K. set (map e_id (indexEntries k)))"
  unfolding matchingIds_def by (rule foldl_inter_None)

text \<open>
  The entries of one token after the hash intersection, the decryption and the
  constraint filter, given the entries read for all tokens; and the ids that all tokens
  have among them.
\<close>

definition validEntries ::
  "Env \<Rightarrow> SearchRestriction \<Rightarrow> EncryptedSearchIndexEntryWithHash KeyToEntries set
     \<Rightarrow> EncryptedSearchIndexEntryWithHash KeyToEntries \<Rightarrow> SearchIndexEntry list" where
  "validEntries env restr S k =
     filter (\<lambda>entry. isValidAttributeAndTime restr entry
                       (minIncludedId env restr) (maxExcludedId env restr))
       (map (\<lambda>entry. decryptSearchIndexEntry env (encEntry entry))
          (filter (\<lambda>entry. idHash entry \<in> (\<Inter>k\<in>S. set (map idHash (indexEntries k))))
             (indexEntries k)))"

definition commonIds ::
  "Env \<Rightarrow> SearchRestriction \<Rightarrow> EncryptedSearchIndexEntryWithHash KeyToEntries set \<Rightarrow> Id set" where
  "commonIds env restr S = (\<Inter>k\<in>S. set (map e_id (validEntries env restr S k)))"

lemma filters_eq:
  assumes "K \<noteq> []"
  shows "filterByTypeAndAttributeAndTime env
           (decryptSearchResult env (filterByEncryptedId K)) restr
         = map (\<lambda>k. \<lparr> indexKey = indexKey k,
                      indexEntries = filter (\<lambda>entry. e_id entry \<in> commonIds env restr (set K))
                                       (validEntries env restr (set K) k) \<rparr>) K"
proof -
  let ?valid = "map (\<lambda>k. \<lparr> indexKey = indexKey k,
                           indexEntries = validEntries env restr (set K) k \<rparr>) K"
  have valid: "map (\<lambda>result. result\<lparr> indexEntries :=
                           filter (\<lambda>entry. isValidAttributeAndTime restr entry
                                             (minIncludedId env restr) (maxExcludedId env restr))
                                  (indexEntries result) \<rparr>)
                 (decryptSearchResult env (filterByEncryptedId K)) = ?valid"
    using assms
    by (simp add: decryptSearchResult_def filterByEncryptedId_def matchingEncIds_eq
        validEntries_def comp_def)
  have ne: "?valid \<noteq> []" using assms by simp
  have "matchingIds ?valid = Some (commonIds env restr (set K))"
    unfolding matchingIds_eq [OF ne] commonIds_def by simp
  then show ?thesis
    unfolding filterByTypeAndAttributeAndTime_def valid Let_def
    by (simp add: comp_def)
qed

lemma commonIds_valid:
  assumes "k \<in> S"
  shows "set (map e_id (filter (\<lambda>entry. e_id entry \<in> commonIds env restr S)
                           (validEntries env restr S k)))
         = commonIds env restr S"
proof (intro set_eqI iffI)
  fix x
  assume "x \<in> set (map e_id (filter (\<lambda>entry. e_id entry \<in> commonIds env restr S)
                           (validEntries env restr S k)))"
  then show "x \<in> commonIds env restr S" by auto
next
  fix x
  assume x: "x \<in> commonIds env restr S"
  with assms have "x \<in> set (map e_id (validEntries env restr S k))"
    unfolding commonIds_def by blast
  then obtain e where "e \<in> set (validEntries env restr S k)" "e_id e = x" by auto
  with x show "x \<in> set (map e_id (filter (\<lambda>entry. e_id entry \<in> commonIds env restr S)
                           (validEntries env restr S k)))"
    by force
qed

lemma validEntries_decrypted:
  "e \<in> set (validEntries env restr S k) \<Longrightarrow> e \<in> range (decryptSearchIndexEntry env)"
  by (auto simp: validEntries_def)

lemma find_snd_None: "(find (\<lambda>r. snd r = i) P = None) = (i \<notin> snd ` set P)"
  unfolding find_None_iff by force

lemma uniqueElementIds_ids:
  "set (map e_id (uniqueElementIds A P es)) = set (map e_id es) - A - snd ` set P"
  by (induction es arbitrary: A) (auto simp: find_snd_None)

lemma uniqueElementIds_distinct:
  "distinct (map e_id (uniqueElementIds A P es))"
proof (induction es arbitrary: A)
  case Nil
  then show ?case by simp
next
  case (Cons e es)
  have "e_id e \<notin> set (map e_id (uniqueElementIds (insert (e_id e) A) P es))"
    unfolding uniqueElementIds_ids by simp
  with Cons.IH show ?case by simp
qed

lemma uniqueElementIds_subset: "set (uniqueElementIds A P es) \<subseteq> set es"
  by (induction es arbitrary: A) auto

lemma mset_insort_cmp: "mset (insort_cmp c x ys) = add_mset x (mset ys)"
  by (induction ys) auto

lemma mset_sort_cmp: "mset (sort_cmp c xs) = mset xs"
  by (induction xs) (auto simp: sort_cmp_def mset_insort_cmp)

lemma set_sort_cmp: "set (sort_cmp c xs) = set xs"
  using mset_sort_cmp [of c xs] by (metis set_mset_mset)

lemma length_sort_cmp: "length (sort_cmp c xs) = length xs"
  using mset_sort_cmp [of c xs] by (metis size_mset)

lemma compareNewestFirst_le: "(compareNewestFirst a b \<le> 0) = (b \<le> a)"
  by (auto simp: compareNewestFirst_def firstBiggerThanSecond_def)

lemma sorted_insort_newest:
  "sorted_wrt (\<lambda>a b. f b \<le> f a) ys \<Longrightarrow>
   sorted_wrt (\<lambda>a b. f b \<le> f a) (insort_cmp (\<lambda>l r. compareNewestFirst (f l) (f r)) x ys)"
proof (induction ys)
  case Nil
  then show ?case by simp
next
  case (Cons y ys)
  show ?case
  proof (cases "f y \<le> f x")
    case True
    with Cons.prems show ?thesis
      by (auto simp: compareNewestFirst_le)
  next
    case False
    have "set (insort_cmp (\<lambda>l r. compareNewestFirst (f l) (f r)) x ys) = insert x (set ys)"
      using mset_insort_cmp [of "\<lambda>l r. compareNewestFirst (f l) (f r)" x ys]
      by (metis set_mset_add_mset_insert set_mset_mset)
    with False Cons show ?thesis
      by (auto simp: compareNewestFirst_le)
  qed
qed

lemma sorted_sort_newest:
  "sorted_wrt (\<lambda>a b. f b \<le> f a) (sort_cmp (\<lambda>l r. compareNewestFirst (f l) (f r)) xs)"
  by (induction xs) (auto simp: sort_cmp_def sorted_insort_newest)

lemma descending_unique:
  fixes xs ys :: "nat list"
  assumes "sorted_wrt (\<lambda>a b. b \<le> a) xs" "distinct xs"
    and "sorted_wrt (\<lambda>a b. b \<le> a) ys" "distinct ys" and "set xs = set ys"
  shows "xs = ys"
proof -
  have "sorted (rev xs)" "sorted (rev ys)"
    using assms(1,3) by (simp_all add: sorted_wrt_rev)
  then have "rev xs = rev ys"
    using assms by (intro sorted_distinct_set_unique) simp_all
  then show ?thesis by simp
qed

text \<open>The ids of the entries, newest first, are fixed by the set of the ids.\<close>

lemma sorted_ids_unique:
  assumes "distinct (map e_id xs)" "distinct (map e_id ys)"
    and "set (map e_id xs) = set (map e_id ys)"
  shows "map e_id (sort_cmp (\<lambda>l r. compareNewestFirst (e_id l) (e_id r)) xs)
       = map e_id (sort_cmp (\<lambda>l r. compareNewestFirst (e_id l) (e_id r)) ys)"
    (is "map e_id ?sx = map e_id ?sy")
proof (rule descending_unique)
  show "sorted_wrt (\<lambda>a b. b \<le> a) (map e_id ?sx)" "sorted_wrt (\<lambda>a b. b \<le> a) (map e_id ?sy)"
    by (simp_all add: sorted_wrt_map sorted_sort_newest)
  have "mset (map e_id ?sx) = mset (map e_id xs)" "mset (map e_id ?sy) = mset (map e_id ys)"
    by (simp_all add: mset_sort_cmp)
  then show "distinct (map e_id ?sx)" "distinct (map e_id ?sy)"
    "set (map e_id ?sx) = set (map e_id ?sy)"
    using assms by (metis mset_eq_imp_distinct_iff, metis mset_eq_imp_distinct_iff, metis mset_eq_setD)
qed

lemma pushResult_key:
  "e_id e = e_id e' \<Longrightarrow> e_encId e = e_encId e' \<Longrightarrow>
   pushResult env restr e rs = pushResult env restr e' rs"
  by (auto simp: pushResult_def split: option.splits)

lemma mapEntries_stop:
  "length inFlight < 5 \<Longrightarrow> truthy m \<and> the m \<le> length rs \<Longrightarrow>
   mapEntries env restr m (es @ [e]) inFlight rs = mapEntries env restr m es inFlight rs"
  by (subst mapEntries.simps) simp

lemma mapEntries_start:
  "length inFlight < 5 \<Longrightarrow> \<not> (truthy m \<and> the m \<le> length rs) \<Longrightarrow>
   mapEntries env restr m (es @ [e]) inFlight rs = mapEntries env restr m es (inFlight @ [e]) rs"
  by (subst mapEntries.simps) auto

lemma mapEntries_complete:
  "\<not> (queue \<noteq> [] \<and> length (entry # rest) < 5) \<Longrightarrow>
   mapEntries env restr m queue (entry # rest) rs
     = mapEntries env restr m queue rest (pushResult env restr entry rs)"
  by (subst mapEntries.simps) auto

lemma mapEntries_done: "mapEntries env restr m [] [] rs = rs"
  by (subst mapEntries.simps) simp

lemma mapEntries_cong:
  assumes "map e_id w = map e_id w'" "map e_encId w = map e_encId w'"
    and "map e_id f = map e_id f'" "map e_encId f = map e_encId f'"
  shows "mapEntries env restr m w f rs = mapEntries env restr m w' f' rs"
  using assms
proof (induction env restr m w f rs arbitrary: w' f' rule: mapEntries.induct)
  case (1 env restr m queue inFlight rs)
  have len: "length f' = length inFlight"
    using "1.prems"(3) by (metis length_map)
  show ?case
  proof (cases "queue \<noteq> [] \<and> length inFlight < 5")
    case True
    then obtain e es where w: "queue = es @ [e]" by (cases queue rule: rev_cases) auto
    from "1.prems"(1) w have "w' \<noteq> []" by auto
    then obtain e' es' where w': "w' = es' @ [e']" by (cases w' rule: rev_cases) auto
    from "1.prems"(1,2) have e: "e_id e = e_id e'" "e_encId e = e_encId e'"
      and es: "map e_id es = map e_id es'" "map e_encId es = map e_encId es'"
      unfolding w w' by simp_all
    from True have fl: "length inFlight < 5" "length f' < 5" using len by simp_all
    show ?thesis
    proof (cases "truthy m \<and> the m \<le> length rs")
      case full: True
      have "mapEntries env restr m es inFlight rs = mapEntries env restr m es' f' rs"
        using "1.IH"(1) [OF True full, of es' f'] es "1.prems"(3,4) w by simp
      then show ?thesis
        unfolding w w' mapEntries_stop [OF fl(1) full] mapEntries_stop [OF fl(2) full] .
    next
      case notfull: False
      have "mapEntries env restr m es (inFlight @ [e]) rs
              = mapEntries env restr m es' (f' @ [e']) rs"
        using "1.IH"(2) [OF True notfull, of es' "f' @ [e']"] es e "1.prems"(3,4) w by simp
      then show ?thesis
        unfolding w w' mapEntries_start [OF fl(1) notfull] mapEntries_start [OF fl(2) notfull] .
    qed
  next
    case False
    then have stay: "\<not> (w' \<noteq> [] \<and> length f' < 5)"
      using len "1.prems"(1) by (metis map_is_Nil_conv)
    show ?thesis
    proof (cases inFlight)
      case Nil
      then have f': "f' = []" using len by simp
      from False Nil have "queue = []" by simp
      moreover from this "1.prems"(1) have "w' = []" by simp
      ultimately show ?thesis using Nil f' by simp
    next
      case (Cons entry rest)
      with "1.prems"(3,4) obtain entry' rest' where f': "f' = entry' # rest'"
        and e: "e_id entry = e_id entry'" "e_encId entry = e_encId entry'"
        and r: "map e_id rest = map e_id rest'" "map e_encId rest = map e_encId rest'"
        by (cases f') auto
      have "mapEntries env restr m queue rest (pushResult env restr entry rs)
              = mapEntries env restr m w' rest' (pushResult env restr entry rs)"
        using "1.IH"(3) [OF False Cons, of w' rest'] "1.prems"(1,2) r by simp
      moreover have "mapEntries env restr m queue inFlight rs
              = mapEntries env restr m queue rest (pushResult env restr entry rs)"
        using False unfolding Cons by (rule mapEntries_complete)
      moreover have "mapEntries env restr m w' f' rs
              = mapEntries env restr m w' rest' (pushResult env restr entry' rs)"
        using stay unfolding f' by (rule mapEntries_complete)
      ultimately show ?thesis
        using pushResult_key [OF e] by simp
    qed
  qed
qed

lemma promiseMap_cong:
  assumes "map e_id xs = map e_id ys" "map e_encId xs = map e_encId ys"
  shows "promiseMap env restr m xs rs = promiseMap env restr m ys rs"
proof -
  have "mapEntries env restr m (drop 5 xs) (take 5 xs) rs
      = mapEntries env restr m (drop 5 ys) (take 5 ys) rs"
    by (intro mapEntries_cong)
      (simp_all only: drop_map [symmetric] take_map [symmetric] assms)
  then show ?thesis by (simp add: promiseMap_def)
qed

lemma encIds_eq:
  assumes enc: "\<forall>b b'. e_id (decryptSearchIndexEntry env b) = e_id (decryptSearchIndexEntry env b')
            \<longrightarrow> e_encId (decryptSearchIndexEntry env b) = e_encId (decryptSearchIndexEntry env b')"
    and "set xs \<subseteq> range (decryptSearchIndexEntry env)"
    and "set ys \<subseteq> range (decryptSearchIndexEntry env)"
    and "map e_id xs = map e_id ys"
  shows "map e_encId xs = map e_encId ys"
  using assms(2-)
proof (induction xs arbitrary: ys)
  case Nil
  then show ?case by simp
next
  case (Cons x xs)
  then obtain y ys' where ys: "ys = y # ys'" "e_id x = e_id y" "map e_id xs = map e_id ys'"
    by (cases ys) auto
  from Cons.prems ys obtain b b' where "x = decryptSearchIndexEntry env b"
    "y = decryptSearchIndexEntry env b'" by auto
  with enc ys(2) have "e_encId x = e_encId y" by blast
  moreover have "map e_encId xs = map e_encId ys'"
    using Cons.IH [of ys'] Cons.prems ys by auto
  ultimately show ?case using ys by simp
qed

lemma findIndexEntries_fresh:
  assumes "lastReadSearchIndexRow R = map (\<lambda>t. (t, None)) toks"
  shows "map snd (findIndexEntries env R m)
       = map (\<lambda>t. snd (findEntriesForSearchToken env (restriction R) m (t, None))) toks"
  using assms by (simp add: findIndexEntries_def comp_def)

lemma startOrContinueSearch_results:
  assumes "reduceWords
             (filterByTypeAndAttributeAndTime env
                (decryptSearchResult env (filterByEncryptedId (map snd (findIndexEntries env R m))))
                (restriction R))
             (matchWordOrder R) = Inr es"
  shows "map_sum id results (startOrContinueSearch env R m) =
     Inr (promiseMap env (restriction R) m
            (take (if truthy m then the m
                   else length (sort_cmp (\<lambda>l r. compareNewestFirst (e_id l) (e_id r))
                                  (uniqueElementIds {} (results R) es)) + 1)
               (sort_cmp (\<lambda>l r. compareNewestFirst (e_id l) (e_id r))
                  (uniqueElementIds {} (results R) es)))
            (results R))"
  by (simp add: startOrContinueSearch_def Let_def filterByListIdAndGroupSearchResults_def
      reduceToUniqueElementIds_def assms)

lemma page_results_perm:
  assumes rows: "lastReadSearchIndexRow R = map (\<lambda>t. (t, None)) toks"
      "lastReadSearchIndexRow R' = map (\<lambda>t. (t, None)) toks'"
    and perm: "mset toks' = mset toks" and ne: "toks \<noteq> []"
    and same: "restriction R' = restriction R" "results R' = results R"
    and mwo: "\<not> matchWordOrder R" "\<not> matchWordOrder R'"
    and enc: "\<forall>b b'. e_id (decryptSearchIndexEntry env b) = e_id (decryptSearchIndexEntry env b')
            \<longrightarrow> e_encId (decryptSearchIndexEntry env b) = e_encId (decryptSearchIndexEntry env b')"
  shows "map_sum id results (startOrContinueSearch env R' m)
       = map_sum id results (startOrContinueSearch env R m)"
proof -
  define restr where "restr = restriction R"
  define rt where "rt = (\<lambda>t. snd (findEntriesForSearchToken env restr m (t, None)))"
  define S where "S = set (map rt toks)"
  define h where "h = (\<lambda>k. \<lparr> indexKey = indexKey k,
       indexEntries = filter (\<lambda>entry. e_id entry \<in> commonIds env restr S)
                        (validEntries env restr S k) \<rparr>)"
  let ?cmp = "\<lambda>l r. compareNewestFirst (e_id l) (e_id r)"
  have ne': "toks' \<noteq> []" using perm ne by auto
  have K: "map snd (findIndexEntries env R m) = map rt toks"
    unfolding rt_def restr_def by (rule findIndexEntries_fresh [OF rows(1)])
  have K': "map snd (findIndexEntries env R' m) = map rt toks'"
    using findIndexEntries_fresh [OF rows(2), of env m] same(1)
    unfolding rt_def restr_def by simp
  have S': "set (map rt toks') = S"
    unfolding S_def using perm by (metis mset_eq_setD set_map)
  obtain t0 ts where toks: "toks = t0 # ts" using ne by (cases toks) auto
  obtain t0' ts' where toks': "toks' = t0' # ts'" using ne' by (cases toks') auto
  have stage: "filterByTypeAndAttributeAndTime env
           (decryptSearchResult env (filterByEncryptedId (map rt toks))) restr
         = map h (map rt toks)"
    unfolding h_def S_def by (rule filters_eq) (simp add: ne)
  have "filterByTypeAndAttributeAndTime env
           (decryptSearchResult env (filterByEncryptedId (map rt toks'))) restr
         = map (\<lambda>k. \<lparr> indexKey = indexKey k,
       indexEntries = filter (\<lambda>entry. e_id entry \<in> commonIds env restr (set (map rt toks')))
                        (validEntries env restr (set (map rt toks')) k) \<rparr>) (map rt toks')"
    by (rule filters_eq) (simp add: ne')
  then have stage': "filterByTypeAndAttributeAndTime env
           (decryptSearchResult env (filterByEncryptedId (map rt toks'))) restr
         = map h (map rt toks')"
    unfolding S' h_def .
  define es where "es = indexEntries (h (rt t0))"
  define es' where "es' = indexEntries (h (rt t0'))"
  have red: "reduceWords (map h (map rt toks)) False = Inr es"
    "reduceWords (map h (map rt toks')) False = Inr es'"
    by (simp_all add: reduceWords_def toks toks' es_def es'_def)
  have in_S: "rt t0 \<in> S" "rt t0' \<in> S"
    using toks toks' S' unfolding S_def by auto
  have ids: "set (map e_id es) = commonIds env restr S" "set (map e_id es') = commonIds env restr S"
    using commonIds_valid [OF in_S(1), of env restr] commonIds_valid [OF in_S(2), of env restr]
    by (simp_all add: es_def es'_def h_def)
  have dec: "set es \<subseteq> range (decryptSearchIndexEntry env)"
    "set es' \<subseteq> range (decryptSearchIndexEntry env)"
    using validEntries_decrypted by (auto simp: es_def es'_def h_def)
  define sU where "sU = sort_cmp ?cmp (uniqueElementIds {} (results R) es)"
  define sU' where "sU' = sort_cmp ?cmp (uniqueElementIds {} (results R) es')"
  have sorted_ids: "map e_id sU = map e_id sU'"
    unfolding sU_def sU'_def
    by (rule sorted_ids_unique) (simp_all only: uniqueElementIds_distinct uniqueElementIds_ids ids)
  then have len: "length sU = length sU'" by (metis length_map)
  have "set sU \<subseteq> set es" "set sU' \<subseteq> set es'"
    using uniqueElementIds_subset [of "{}" "results R" es]
      uniqueElementIds_subset [of "{}" "results R" es']
    by (simp_all only: set_sort_cmp sU_def sU'_def)
  with dec have "set sU \<subseteq> range (decryptSearchIndexEntry env)"
    "set sU' \<subseteq> range (decryptSearchIndexEntry env)"
    by blast+
  then have sorted_encIds: "map e_encId sU = map e_encId sU'"
    using sorted_ids by (intro encIds_eq [OF enc])
  let ?n = "if truthy m then the m else length sU + 1"
  let ?n' = "if truthy m then the m else length sU' + 1"
  have page: "promiseMap env restr m (take ?n sU) (results R)
            = promiseMap env restr m (take ?n' sU') (results R)"
    by (intro promiseMap_cong)
      (simp_all only: len take_map [symmetric] sorted_ids sorted_encIds)
  from mwo have mF: "matchWordOrder R = False" "matchWordOrder R' = False" by simp_all
  have redR: "reduceWords
             (filterByTypeAndAttributeAndTime env
                (decryptSearchResult env (filterByEncryptedId (map snd (findIndexEntries env R m))))
                (restriction R))
             (matchWordOrder R) = Inr es"
    unfolding K stage mF restr_def [symmetric] by (rule red(1))
  have redR': "reduceWords
             (filterByTypeAndAttributeAndTime env
                (decryptSearchResult env (filterByEncryptedId (map snd (findIndexEntries env R' m))))
                (restriction R'))
             (matchWordOrder R') = Inr es'"
    unfolding K' same stage' mF restr_def [symmetric] by (rule red(2))
  have r1: "map_sum id results (startOrContinueSearch env R m)
      = Inr (promiseMap env restr m (take ?n sU) (results R))"
    unfolding sU_def restr_def by (rule startOrContinueSearch_results [OF redR])
  have r2: "map_sum id results (startOrContinueSearch env R' m)
      = Inr (promiseMap env restr m (take ?n' sU') (results R))"
    using startOrContinueSearch_results [OF redR'] unfolding same sU'_def restr_def .
  show ?thesis
    unfolding r1 r2 page ..
qed

text \<open>The result record that \<open>search\<close> starts from.\<close>

definition initialResult :: "Env \<Rightarrow> string \<Rightarrow> SearchRestriction \<Rightarrow> SearchResult" where
  "initialResult env q restr =
     \<lparr> query = q, restriction = restr, results = [],
       currentIndexTimestamp = getSearchEndTimestamp env restr,
       moreResultsEntries = [],
       lastReadSearchIndexRow = map (\<lambda>token. (token, None)) (tokenize env q),
       matchWordOrder = phraseQuery env q \<rparr>"

lemma search_without_filter:
  assumes "tokenize env q \<noteq> []"
    and "\<not> (0 < msc \<and> 2 \<le> length (tokenize env q) \<and> facadeRegistered env restr)"
  shows "search env q restr msc m =
     (if 0 < msc \<and> length (tokenize env q) = 1 \<and> facadeRegistered env restr
      then startOrContinueSearch env (initialResult env q restr) m
      else (case startOrContinueSearch env (initialResult env q restr) m of
              Inl e \<Rightarrow> Inl e
            | Inr s \<Rightarrow> Inr (s\<lparr> results := sortNewestFirst (results s) \<rparr>)))"
proof -
  have "(1 < length (tokenize env q) \<and> startsWith q [CHR 0x22] \<and> endsWith q [CHR 0x22])
          = phraseQuery env q"
    by (auto simp: startsWith_single endsWith_single enclosedInDoubleQuotes_def phraseQuery_def)
  moreover have "0 < length (tokenize env q)"
    using assms(1) by simp
  then have "length (tokenize env q) = 1 \<or> 2 \<le> length (tokenize env q)"
    by arith
  ultimately show ?thesis
    using assms
    by (elim disjE)
      (auto simp: search_def Let_def initialResult_def searchForTokens_def facadeRegistered_def)
qed

lemma search_no_tokens:
  "tokenize env q = [] \<Longrightarrow> \<exists>r. search env q restr msc m = Inr r \<and> results r = []"
  by (simp add: search_def Let_def)

text \<open>
  C9, as stated, fails on the suggestion path for several words: there the last token is
  not searched but used as a prefix filter, so \<open>alpha be\<close> finds the element 100,
  whose text has \<open>alpha\<close> and a word starting with \<open>be\<close>, while \<open>be alpha\<close> looks
  up the postings of \<open>be\<close>, finds none and returns nothing. Neither query is in phrase
  mode.
\<close>

theorem search_token_order_counterexample:
  "mset (tokenize exEnv ''be alpha'') = mset (tokenize exEnv ''alpha be'')
   \<and> map_sum id (matchWordOrder) (search exEnv ''alpha be'' exRestriction 5 (Some 10)) = Inr False
   \<and> map_sum id (matchWordOrder) (search exEnv ''be alpha'' exRestriction 5 (Some 10)) = Inr False
   \<and> map_sum id (\<lambda>r. set (results r)) (search exEnv ''alpha be'' exRestriction 5 (Some 10))
        = Inr {(''L'', 100)}
   \<and> map_sum id (\<lambda>r. set (results r)) (search exEnv ''be alpha'' exRestriction 5 (Some 10))
        = Inr {}"
proof -
  have toks: "tokenize exEnv ''alpha be'' = [''alpha'', ''be'']"
    "tokenize exEnv ''be alpha'' = [''be'', ''alpha'']"
    by code_simp+
  have "map_sum id (\<lambda>r. (matchWordOrder r, results r))
          (search exEnv ''alpha be'' exRestriction 5 (Some 10)) = Inr (False, [(''L'', 100)])"
    by code_simp
  moreover have "map_sum id (\<lambda>r. (matchWordOrder r, results r))
          (search exEnv ''be alpha'' exRestriction 5 (Some 10)) = Inr (False, [])"
    by code_simp
  ultimately show ?thesis
    unfolding toks by (auto simp: map_sum_def split: sum.splits)
qed

text \<open>
  C9, amended. Let two queries have the same tokens in a different order, neither in
  phrase mode, and let the search not be the suggestion search of several words (no
  positive \<open>minSuggestionCount\<close>, or fewer than two terms, or no facade registered for
  the type). On a store whose entries of one id carry one encrypted id, both searches
  return a result, and the two results hold the same set of pairs.
\<close>

theorem search_token_order:
  assumes perm: "mset (tokenize env q') = mset (tokenize env q)"
    and noPhrase: "\<not> phraseQuery env q" "\<not> phraseQuery env q'"
    and path: "\<not> (0 < msc \<and> 2 \<le> length (tokenize env q) \<and> facadeRegistered env restr)"
    and enc: "deterministicIds env"
  shows "\<exists>r r'. search env q restr msc m = Inr r \<and> search env q' restr msc m = Inr r'
           \<and> set (results r') = set (results r)"
proof (cases "tokenize env q = []")
  case True
  then have "tokenize env q' = []" using perm by simp
  with True show ?thesis
    using search_no_tokens [of env q restr msc m] search_no_tokens [of env q' restr msc m]
    by auto
next
  case False
  then have ne': "tokenize env q' \<noteq> []" using perm by auto
  have len: "length (tokenize env q') = length (tokenize env q)"
    using perm by (rule mset_eq_length)
  let ?R = "initialResult env q restr" and ?R' = "initialResult env q' restr"
  from path have path': "\<not> (0 < msc \<and> 2 \<le> length (tokenize env q') \<and> facadeRegistered env restr)"
    unfolding len .
  obtain P where P: "startOrContinueSearch env ?R m = Inr P"
    using startOrContinueSearch_total [of ?R env m] False by (auto simp: initialResult_def)
  obtain P' where P': "startOrContinueSearch env ?R' m = Inr P'"
    using startOrContinueSearch_total [of ?R' env m] ne' by (auto simp: initialResult_def)
  have "map_sum id results (startOrContinueSearch env ?R' m)
          = map_sum id results (startOrContinueSearch env ?R m)"
  proof (rule page_results_perm [OF _ _ perm False])
    show "lastReadSearchIndexRow ?R = map (\<lambda>t. (t, None)) (tokenize env q)"
      "lastReadSearchIndexRow ?R' = map (\<lambda>t. (t, None)) (tokenize env q')"
      "restriction ?R' = restriction ?R" "results ?R' = results ?R"
      "\<not> matchWordOrder ?R" "\<not> matchWordOrder ?R'"
      using noPhrase by (simp_all add: initialResult_def)
    show "\<forall>b b'. e_id (decryptSearchIndexEntry env b) = e_id (decryptSearchIndexEntry env b')
            \<longrightarrow> e_encId (decryptSearchIndexEntry env b) = e_encId (decryptSearchIndexEntry env b')"
      using enc unfolding deterministicIds_def .
  qed
  then have res: "results P' = results P" using P P' by simp
  have "set (sortNewestFirst (results P)) = set (results P)"
    by (simp add: sortNewestFirst_def set_sort_cmp)
  then show ?thesis
    unfolding search_without_filter [OF False path] search_without_filter [OF ne' path'] len P P'
    using res by (auto simp: sortNewestFirst_def set_sort_cmp)
qed

theorem search_token_order_witness:
  "mset (tokenize exEnv ''beta alpha'') = mset (tokenize exEnv ''alpha beta'')
   \<and> \<not> phraseQuery exEnv ''alpha beta'' \<and> \<not> phraseQuery exEnv ''beta alpha''
   \<and> deterministicIds exEnv
   \<and> map_sum id results (search exEnv ''alpha beta'' exRestriction 0 (Some 10))
        = Inr [(''L'', 100), (''L'', 80)]
   \<and> map_sum id (\<lambda>r. set (results r)) (search exEnv ''beta alpha'' exRestriction 0 (Some 10))
        = Inr {(''L'', 100), (''L'', 80)}"
proof -
  have toks: "tokenize exEnv ''alpha beta'' = [''alpha'', ''beta'']"
    "tokenize exEnv ''beta alpha'' = [''beta'', ''alpha'']"
    by code_simp+
  have perm: "mset (tokenize exEnv ''beta alpha'') = mset (tokenize exEnv ''alpha beta'')"
    unfolding toks by simp
  have np: "\<not> phraseQuery exEnv ''alpha beta''" "\<not> phraseQuery exEnv ''beta alpha''"
    by (simp_all add: phraseQuery_def enclosedInDoubleQuotes_def)
  have det: "deterministicIds exEnv"
    by (simp add: deterministicIds_def exEnv_def decodeEntry_def)
  have path: "\<not> (0 < (0::nat) \<and> 2 \<le> length (tokenize exEnv ''alpha beta'')
                \<and> facadeRegistered exEnv exRestriction)"
    by simp
  have run: "map_sum id results (search exEnv ''alpha beta'' exRestriction 0 (Some 10))
        = Inr [(''L'', 100), (''L'', 80)]"
    by code_simp
  from search_token_order [OF perm np path det, of "Some 10"] run
  have "map_sum id (\<lambda>r. set (results r)) (search exEnv ''beta alpha'' exRestriction 0 (Some 10))
        = Inr {(''L'', 100), (''L'', 80)}"
    by auto
  with perm np det run show ?thesis by simp
qed

section \<open>The assembler under other schedules of the lookups\<close>

lemma pushResult_pushed: "pushResult env restr e rs = rs @ pushed env restr e"
  by (auto simp: pushResult_def pushed_def split: option.splits)

lemma length_pushed: "length (pushed env restr e) \<le> 1"
  by (auto simp: pushResult_def pushed_def split: option.splits)

text \<open>The schedule of the promise library is one of the schedules.\<close>

lemma mapEntries_is_schedule:
  "(mapStep env restr m)\<^sup>*\<^sup>* (w, f, rs) ([], [], mapEntries env restr m w f rs)"
proof (induction env restr m w f rs rule: mapEntries.induct)
  case (1 env restr m queue inFlight rs)
  show ?case
  proof (cases "queue \<noteq> [] \<and> length inFlight < 5")
    case True
    then obtain e es where w: "queue = es @ [e]" by (cases queue rule: rev_cases) auto
    from True have fl: "length inFlight < 5" by simp
    show ?thesis
    proof (cases "truthy m \<and> the m \<le> length rs")
      case full: True
      have "mapStep env restr m (es @ e # [], inFlight, rs) (es @ [], inFlight, rs)"
        using fl full by (rule mapStep.stop)
      then have "mapStep env restr m (queue, inFlight, rs) (es, inFlight, rs)"
        using w by simp
      moreover have "(mapStep env restr m)\<^sup>*\<^sup>* (es, inFlight, rs)
                       ([], [], mapEntries env restr m es inFlight rs)"
        using "1.IH"(1) [OF True full] w by simp
      ultimately show ?thesis
        unfolding w mapEntries_stop [OF fl full] by (rule converse_rtranclp_into_rtranclp)
    next
      case notfull: False
      have "mapStep env restr m (es @ e # [], inFlight, rs) (es @ [], inFlight @ [e], rs)"
        using fl notfull by (rule mapStep.start)
      then have "mapStep env restr m (queue, inFlight, rs) (es, inFlight @ [e], rs)"
        using w by simp
      moreover have "(mapStep env restr m)\<^sup>*\<^sup>* (es, inFlight @ [e], rs)
                       ([], [], mapEntries env restr m es (inFlight @ [e]) rs)"
        using "1.IH"(2) [OF True notfull] w by simp
      ultimately show ?thesis
        unfolding w mapEntries_start [OF fl notfull] by (rule converse_rtranclp_into_rtranclp)
    qed
  next
    case False
    show ?thesis
    proof (cases inFlight)
      case Nil
      with False have "queue = []" by simp
      with Nil show ?thesis by (simp add: mapEntries_done)
    next
      case (Cons entry rest)
      have "mapStep env restr m (queue, [] @ entry # rest, rs)
              (queue, [] @ rest, pushResult env restr entry rs)"
        by (rule mapStep.complete)
      then have "mapStep env restr m (queue, inFlight, rs)
              (queue, rest, pushResult env restr entry rs)"
        using Cons by simp
      moreover have "(mapStep env restr m)\<^sup>*\<^sup>* (queue, rest, pushResult env restr entry rs)
           ([], [], mapEntries env restr m queue rest (pushResult env restr entry rs))"
        using "1.IH"(3) [OF False Cons] .
      moreover have "mapEntries env restr m queue inFlight rs
              = mapEntries env restr m queue rest (pushResult env restr entry rs)"
        using False unfolding Cons by (rule mapEntries_complete)
      ultimately show ?thesis
        by (simp add: converse_rtranclp_into_rtranclp)
    qed
  qed
qed

lemma first_round_stops:
  assumes "truthy m \<and> the m \<le> length rs"
  shows "(mapStep env restr m)\<^sup>*\<^sup>* (w, [], rs) ([], [], rs)"
proof (induction w)
  case Nil
  show ?case by simp
next
  case (Cons e w)
  have "mapStep env restr m ([] @ e # w, [], rs) ([] @ w, [], rs)"
    using assms by (intro mapStep.stop) simp_all
  then have "mapStep env restr m (e # w, [], rs) (w, [], rs)" by simp
  then show ?case using Cons by (rule converse_rtranclp_into_rtranclp)
qed

lemma first_round_starts:
  assumes "\<not> (truthy m \<and> the m \<le> length rs)"
  shows "length f + length xs \<le> 5 \<Longrightarrow>
         (mapStep env restr m)\<^sup>*\<^sup>* (xs @ ys, f, rs) (ys, f @ xs, rs)"
proof (induction xs arbitrary: f)
  case Nil
  show ?case by simp
next
  case (Cons x xs)
  have "mapStep env restr m ([] @ x # (xs @ ys), f, rs) ([] @ (xs @ ys), f @ [x], rs)"
    using assms Cons.prems by (intro mapStep.start) simp_all
  then have "mapStep env restr m ((x # xs) @ ys, f, rs) (xs @ ys, f @ [x], rs)" by simp
  moreover have "(mapStep env restr m)\<^sup>*\<^sup>* (xs @ ys, f @ [x], rs) (ys, (f @ [x]) @ xs, rs)"
    using Cons.prems by (intro Cons.IH) simp
  ultimately show ?case by (simp add: converse_rtranclp_into_rtranclp)
qed

lemma promiseMap_is_schedule:
  "(mapStep env restr m)\<^sup>*\<^sup>* (entries, [], rs) ([], [], promiseMap env restr m entries rs)"
proof (cases "truthy m \<and> the m \<le> length rs")
  case True
  then show ?thesis
    using first_round_stops [OF True] by (simp add: promiseMap_def)
next
  case False
  have "(mapStep env restr m)\<^sup>*\<^sup>* (take 5 entries @ drop 5 entries, [], rs)
          (drop 5 entries, [] @ take 5 entries, rs)"
    by (rule first_round_starts [OF False]) simp
  then have "(mapStep env restr m)\<^sup>*\<^sup>* (entries, [], rs) (drop 5 entries, take 5 entries, rs)"
    by simp
  moreover have "(mapStep env restr m)\<^sup>*\<^sup>* (drop 5 entries, take 5 entries, rs)
      ([], [], mapEntries env restr m (drop 5 entries) (take 5 entries) rs)"
    by (rule mapEntries_is_schedule)
  ultimately have "(mapStep env restr m)\<^sup>*\<^sup>* (entries, [], rs)
      ([], [], mapEntries env restr m (drop 5 entries) (take 5 entries) rs)"
    by (rule rtranclp_trans)
  moreover have "promiseMap env restr m entries rs
      = mapEntries env restr m (drop 5 entries) (take 5 entries) rs"
    using False by (auto simp add: promiseMap_def)
  ultimately show ?thesis by (simp only:)
qed

text \<open>When the result is full already, no schedule adds to it.\<close>

lemma full_result_unchanged:
  assumes "(mapStep env restr m)\<^sup>*\<^sup>* (w, [], rs) (w', f', rs')"
    and "truthy m \<and> the m \<le> length rs"
  shows "rs' = rs \<and> f' = []"
  using assms(1)
proof (induction "(w', f', rs')" arbitrary: w' f' rs' rule: rtranclp_induct)
  case base
  then show ?case by simp
next
  case (step y)
  obtain w1 f1 rs1 where y: "y = (w1, f1, rs1)" by (cases y)
  from step(3) [OF y] have inv: "rs1 = rs" "f1 = []" by simp_all
  from step(2) show ?case
    unfolding y inv using assms(2) by cases auto
qed

text \<open>
  When no mapper can find the result full, every schedule that runs to the end pushes
  the same pairs, in some order.
\<close>

lemma schedule_pushes:
  assumes "(mapStep env restr m)\<^sup>*\<^sup>* (w, f, rs) (w', f', rs')"
    and "\<not> truthy m \<or> length rs + length f + length w \<le> the m"
  shows "mset rs' + (\<Sum>e\<in>#mset (f' @ w'). mset (pushed env restr e))
           = mset rs + (\<Sum>e\<in>#mset (f @ w). mset (pushed env restr e))
         \<and> (\<not> truthy m \<or> length rs' + length f' + length w' \<le> the m)"
  using assms(1)
proof (induction "(w', f', rs')" arbitrary: w' f' rs' rule: rtranclp_induct)
  case base
  then show ?case using assms(2) by simp
next
  case (step y)
  obtain w1 f1 rs1 where y: "y = (w1, f1, rs1)" by (cases y)
  note inv = step(3) [OF y]
  let ?P = "\<lambda>e. mset (pushed env restr e)"
  from inv have sum1: "mset rs1 + (\<Sum>e\<in>#mset (f1 @ w1). ?P e)
           = mset rs + (\<Sum>e\<in>#mset (f @ w). ?P e)"
    and room1: "\<not> truthy m \<or> length rs1 + length f1 + length w1 \<le> the m"
    by simp_all
  from step(2) show ?case
    unfolding y
  proof cases
    case (stop before e after)
    with room1 have False by auto
    then show ?thesis ..
  next
    case (start before e after)
    have "mset (f' @ w') = mset (f1 @ w1)"
      using start by simp
    then have "mset rs' + (\<Sum>e\<in>#mset (f' @ w'). ?P e) = mset rs1 + (\<Sum>e\<in>#mset (f1 @ w1). ?P e)"
      using start by (simp only:)
    moreover have "length rs' + length f' + length w' = length rs1 + length f1 + length w1"
      using start by simp
    ultimately show ?thesis using sum1 room1 by (simp only:)
  next
    case (complete before e after)
    have "mset (f1 @ w1) = add_mset e (mset (f' @ w'))"
      using complete by simp
    then have "(\<Sum>e\<in>#mset (f1 @ w1). ?P e) = ?P e + (\<Sum>e\<in>#mset (f' @ w'). ?P e)"
      by (simp only: image_mset_add_mset sum_mset.add_mset)
    moreover have "mset rs' = mset rs1 + ?P e"
      using complete by (simp add: pushResult_pushed)
    ultimately have "mset rs' + (\<Sum>e\<in>#mset (f' @ w'). ?P e)
        = mset rs1 + (\<Sum>e\<in>#mset (f1 @ w1). ?P e)"
      by (simp only: add.assoc)
    moreover have "length rs' + length f' + length w' \<le> length rs1 + length f1 + length w1"
      using complete length_pushed [of env restr e] by (simp add: pushResult_pushed)
    ultimately show ?thesis using sum1 room1 by auto
  qed
qed

section \<open>Where the pagination and the suggestions fall short\<close>

text \<open>
  A further page whose size does not exceed the number of results already held adds
  nothing, whatever the postings are: every mapper finds the result full.
\<close>

lemma promiseMap_full:
  assumes "truthy m \<and> the m \<le> length rs"
  shows "promiseMap env restr m w rs = rs"
  using assms by (simp add: promiseMap_def)

lemma further_page_adds_nothing:
  assumes "0 < moreResultCount" "moreResultCount \<le> length (results sr)"
    and "getMoreSearchResults env sr moreResultCount = Inr sr'"
  shows "results sr' = results sr"
proof -
  have "truthy (Some moreResultCount) \<and> the (Some moreResultCount) \<le> length (results sr)"
    using assms(1,2) by (simp add: truthy_def)
  then show ?thesis
    using assms(3)
    by (auto simp: getMoreSearchResults_def startOrContinueSearch_def Let_def
        filterByListIdAndGroupSearchResults_def promiseMap_full split: sum.splits)
qed

text \<open>
  C1. In scenario S3 the word \<open>alpha\<close> has postings for the ids 100, 90 and 80 in one
  chunk. The search with page size 2 returns the first two. The next page of size 2 adds
  nothing, and neither do the pages after it: the cursor is past the chunk, the entry of
  80 was cut off by the first page, and the result already holds as many pairs as the
  page size. The unbounded search returns all three, so the pages do not add up to it.
\<close>

theorem pagination_loses_results:
  "map_sum id results (search exEnv ''alpha'' exRestriction 0 (Some 2))
     = Inr [(''L'', 100), (''L'', 90)]
   \<and> map_sum id results (searchThenMore exEnv ''alpha'' exRestriction 0 (Some 2) [2])
     = Inr [(''L'', 100), (''L'', 90)]
   \<and> map_sum id results (searchThenMore exEnv ''alpha'' exRestriction 0 (Some 2) [2, 2, 2])
     = Inr [(''L'', 100), (''L'', 90)]
   \<and> map_sum id results (search exEnv ''alpha'' exRestriction 0 None)
     = Inr [(''L'', 100), (''L'', 90), (''L'', 80)]"
  by code_simp

text \<open>
  The chunks that a page with a cursor selects all lie below the cursor, and the cursor
  that the page stores is the key of the last chunk selected, when it selects any.
\<close>

lemma rowsToRead_below_cursor:
  assumes "truthy m" "0 < k" "rowsToRead m (Some k) rows n l = (sel, l')"
  shows "(\<forall>r\<in>set sel. m_key r < k) \<and> (if sel = [] then l' = l else l' = m_key (last sel))"
  using assms(3)
proof (induction rows arbitrary: n l sel l')
  case Nil
  then show ?case by simp
next
  case (Cons r rows)
  show ?case
  proof (cases "m_key r < k \<and> n < 1000")
    case True
    obtain sel0 l0 where rec: "rowsToRead m (Some k) rows (n + m_size r) (m_key r) = (sel0, l0)"
      by (cases "rowsToRead m (Some k) rows (n + m_size r) (m_key r)")
    with Cons.prems True assms(1,2) have sel: "sel = r # sel0" "l' = l0"
      by (simp_all add: truthy_def)
    from Cons.IH [OF rec] True show ?thesis
      unfolding sel by auto
  next
    case False
    with Cons.prems assms(1,2) have "rowsToRead m (Some k) rows n l = (sel, l')"
      by (auto simp: truthy_def)
    from Cons.IH [OF this] show ?thesis .
  qed
qed

text \<open>
  A page that finds no chunk below the cursor leaves \<open>lastReadRowId\<close> at its initial
  \<open>0\<close>, and a cursor of \<open>0\<close> selects the same chunks as no cursor at all.
\<close>

lemma rowsToRead_exhausted:
  assumes "truthy m" "\<forall>r\<in>set rows. \<not> m_key r < k" "0 < k"
  shows "rowsToRead m (Some k) rows n l = ([], l)"
  using assms by (induction rows arbitrary: n l) (simp_all add: truthy_def)

lemma rowsToRead_cursor_zero:
  "rowsToRead m (Some 0) rows n l = rowsToRead m None rows n l"
  by (induction rows arbitrary: n l) (simp_all add: truthy_def)

text \<open>
  C2. In the same scenario the cursor of \<open>alpha\<close> is 1 after the search, 0 after the next
  page, which finds no chunk below 1, and 1 again after the page that follows: a cursor
  of 0 reads as no cursor, so that page selects the chunk with key 1 once more, a key
  that is not below the cursor 0 that the page before it stored.
\<close>

theorem cursor_wraps_around:
  "map (\<lambda>counts. map_sum id lastReadSearchIndexRow
                    (searchThenMore exEnv ''alpha'' exRestriction 0 (Some 2) counts))
       [[], [2], [2, 2]]
     = [Inr [(''alpha'', Some 1)], Inr [(''alpha'', Some 0)], Inr [(''alpha'', Some 1)]]
   \<and> map m_key (fst (rowsToRead (Some 2) (Some 0)
                        (filteredRows exEnv exRestriction ''alpha'') 0 0)) = [1]"
  by code_simp

text \<open>\<open>moreResultsEntries\<close> is empty after every search and every further page.\<close>

lemma moreResultsEntries_pages:
  "getMorePages env sr counts = Inr later \<Longrightarrow> moreResultsEntries later = moreResultsEntries sr"
proof (induction counts arbitrary: sr)
  case Nil
  then show ?case by simp
next
  case (Cons c counts)
  then show ?case
    by (auto simp: getMoreSearchResults_def split: sum.splits
        dest!: startOrContinueSearch_fields(4))
qed

lemma moreResultsEntries_search:
  "search env q restr msc m = Inr r \<Longrightarrow> moreResultsEntries r = []"
  by (auto simp: search_def Let_def searchForTokens_def
      dest!: startOrContinueSearch_fields(4) split: if_splits sum.splits)

lemma moreResultsEntries_empty:
  "searchThenMore env q restr msc m counts = Inr r \<Longrightarrow> moreResultsEntries r = []"
proof -
  assume run: "searchThenMore env q restr msc m counts = Inr r"
  then obtain r0 where r0: "search env q restr msc m = Inr r0" "getMorePages env r0 counts = Inr r"
    by (auto simp: searchThenMore_def split: sum.splits)
  show ?thesis
    using moreResultsEntries_pages [OF r0(2)] moreResultsEntries_search [OF r0(1)] by simp
qed

text \<open>
  C6. In the same scenario the first page stops at two results and the matching entry of
  id 80 is not consumed, yet \<open>moreResultsEntries\<close> is empty after the page and after the
  next one, and the next page does not bring the entry back.
\<close>

theorem unconsumed_entries_dropped:
  "map_sum id (\<lambda>r. (results r, moreResultsEntries r))
        (search exEnv ''alpha'' exRestriction 0 (Some 2))
     = Inr ([(''L'', 100), (''L'', 90)], [])
   \<and> map_sum id (\<lambda>r. (results r, moreResultsEntries r))
        (searchThenMore exEnv ''alpha'' exRestriction 0 (Some 2) [2])
     = Inr ([(''L'', 100), (''L'', 90)], [])"
  by code_simp

text \<open>The suggestions handed to \<open>_searchForTokens\<close> have no effect on the search.\<close>

lemma searchForTokens_suggestions:
  "searchForTokens env sr suggestions m = searchForTokens env sr [] m"
  by (simp add: searchForTokens_def)

text \<open>
  C3. In scenario S5 the suggestion facade of the type completes \<open>foo\<close> to \<open>food\<close>,
  \<open>fool\<close> and \<open>foot\<close>, which have the postings 100, 90 and 80. The suggestion search
  for \<open>foo\<close> returns none of them: it looks up the postings of \<open>foo\<close> itself, of which
  there are none.
\<close>

theorem suggestions_ignored:
  "map (\<lambda>f. getSuggestions f ''foo'') (suggestionFacades exEnv)
     = [[''food'', ''fool'', ''foot'']]
   \<and> map (\<lambda>q. map_sum id results (search exEnv q exRestriction 0 (Some 10)))
         [''food'', ''fool'', ''foot'']
       = [Inr [(''L'', 100)], Inr [(''L'', 90)], Inr [(''L'', 80)]]
   \<and> map_sum id results (search exEnv ''foo'' exRestriction 5 (Some 10)) = Inr []"
  by code_simp

end
